theory Spec2Isabelle
  imports Main
begin

section \<open>Python values and failures\<close>

text \<open>
  The simulator is Python: integers are unbounded (\<open>int\<close>), every exception the code
  can raise is a value of \<open>error\<close>, and a call that may raise returns \<open>error + 'a\<close>.
  Three different \<open>raise ValueError(...)\<close> sites exist; the argument of \<open>ValueError\<close>
  tells them apart the way their messages do.
\<close>

datatype value_error = GridNotInitialized | CellValueNot01 | RuleNotFound "string list"

datatype error =
    InvalidDimensionError
  | IndexError
  | ValueError value_error
  | TypeError
  | ZeroDivisionError
  | SimulationOverflowError
  | PatternParseError
  | FileHandlingError

text \<open>
  Subscripting a sequence of \<open>len\<close> elements with \<open>i\<close>: the position that is read or
  written, if there is one. Positions \<open>-len .. -1\<close> are the same elements counted from
  the end.
\<close>

definition py_index :: "nat \<Rightarrow> int \<Rightarrow> nat option" where
  "py_index len i =
     (if 0 \<le> i \<and> i < int len then Some (nat i)
      else if - int len \<le> i \<and> i < 0 then Some (nat (int len + i))
      else None)"

text \<open>\<open>xs[i]\<close> and \<open>xs[i] = v\<close>; a subscript without a position raises \<open>IndexError\<close>.\<close>

definition list_get :: "'a list \<Rightarrow> int \<Rightarrow> error + 'a" where
  "list_get xs i =
     (case py_index (length xs) i of
        None \<Rightarrow> Inl IndexError
      | Some k \<Rightarrow> Inr (xs ! k))"

definition list_set :: "'a list \<Rightarrow> int \<Rightarrow> 'a \<Rightarrow> error + 'a list" where
  "list_set xs i v =
     (case py_index (length xs) i of
        None \<Rightarrow> Inl IndexError
      | Some k \<Rightarrow> Inr (xs[k := v]))"

text \<open>\<open>range(n)\<close> is empty for \<open>n \<le> 0\<close>.\<close>

definition py_range :: "int \<Rightarrow> int list" where
  "py_range n = map int [0..<nat n]"

section \<open>The object store\<close>

text \<open>
  Boards are mutable objects reached through references: \<open>evolve\<close> receives one board
  and builds another, the simulator holds a reference that \<open>step\<close> redirects. A store
  is the list of all boards allocated so far and a reference is a position in it; a
  method that mutates takes the store and returns it together with its result, also when
  it raises (an exception does not undo earlier writes).

  The rows of a board are list objects of their own in Python. Every place of the package
  that builds a grid (\<open>Board.__init__\<close>, \<open>clear\<close>, \<open>copy\<close>, \<open>evolve_grid\<close>) creates fresh
  row lists, so no two boards and no two rows share a list, and a board's grid is kept
  as a value inside the board.
\<close>

record board =
  width :: int
  height :: int
  grid :: "int list list option"
  generation :: int

type_synonym ref = nat
type_synonym store = "board list"

text \<open>The result of a method that may raise and may mutate.\<close>

type_synonym 'a outcome = "(error + 'a) \<times> store"

section \<open>board.py\<close>

text \<open>
  \<open>Board.__init__\<close>. The field \<open>grid\<close> is \<open>None\<close> only if a caller assigns it so; the
  decorator \<open>validate_grid\<close> (the first \<open>case\<close> of each method below) refuses such a
  board with \<open>ValueError\<close>.
\<close>

definition Board_init :: "int \<Rightarrow> int \<Rightarrow> store \<Rightarrow> ref outcome" where
  "Board_init w h s =
     (if w \<le> 0 \<or> h \<le> 0 then (Inl InvalidDimensionError, s)
      else if w > 1000 \<or> h > 1000 then (Inl InvalidDimensionError, s)
      else (Inr (length s),
            s @ [\<lparr>width = w, height = h,
                  grid = Some (replicate (nat h) (replicate (nat w) 0)),
                  generation = 0\<rparr>]))"

definition set_cell :: "ref \<Rightarrow> int \<Rightarrow> int \<Rightarrow> int \<Rightarrow> store \<Rightarrow> unit outcome" where
  "set_cell self row col v s =
     (case grid (s ! self) of
        None \<Rightarrow> (Inl (ValueError GridNotInitialized), s)
      | Some g \<Rightarrow>
          if \<not> (0 \<le> row \<and> row < height (s ! self) \<and> 0 \<le> col \<and> col < width (s ! self))
          then (Inl IndexError, s)
          else if v \<notin> {0, 1} then (Inl (ValueError CellValueNot01), s)
          else (case list_get g row of
                  Inl e \<Rightarrow> (Inl e, s)
                | Inr r \<Rightarrow>
                    (case list_set r col v of
                       Inl e \<Rightarrow> (Inl e, s)
                     | Inr r' \<Rightarrow>
                         (Inr (), s[self := (s ! self)\<lparr>grid := Some (g[nat row := r'])\<rparr>]))))"

definition get_cell :: "board \<Rightarrow> int \<Rightarrow> int \<Rightarrow> error + int" where
  "get_cell self row col =
     (case grid self of
        None \<Rightarrow> Inl (ValueError GridNotInitialized)
      | Some g \<Rightarrow>
          if \<not> (0 \<le> row \<and> row < height self \<and> 0 \<le> col \<and> col < width self)
          then Inr 0
          else (case list_get g row of
                  Inl e \<Rightarrow> Inl e
                | Inr r \<Rightarrow> list_get r col))"

text \<open>A loop whose body may raise: the first exception ends it.\<close>

fun fold_err :: "('a \<Rightarrow> 'b \<Rightarrow> error + 'b) \<Rightarrow> 'a list \<Rightarrow> 'b \<Rightarrow> error + 'b" where
  "fold_err f [] acc = Inr acc"
| "fold_err f (x # xs) acc =
     (case f x acc of Inl e \<Rightarrow> Inl e | Inr acc' \<Rightarrow> fold_err f xs acc')"

text \<open>The body of the two nested loops of \<open>count_neighbors\<close>, for one \<open>(dr, dc)\<close>.\<close>

definition neighbor_step ::
  "board \<Rightarrow> int list list \<Rightarrow> int \<Rightarrow> int \<Rightarrow> int \<Rightarrow> int \<Rightarrow> int \<Rightarrow> error + int" where
  "neighbor_step self g row col dr dc count =
     (if dr = 0 \<and> dc = 0 then Inr count
      else
        let neighbor_row = row + dr; neighbor_col = col + dc in
        if 0 \<le> neighbor_row \<and> neighbor_row < height self \<and>
           0 \<le> neighbor_col \<and> neighbor_col < width self
        then (case list_get g neighbor_row of
                Inl e \<Rightarrow> Inl e
              | Inr r \<Rightarrow>
                  (case list_get r neighbor_col of
                     Inl e \<Rightarrow> Inl e
                   | Inr v \<Rightarrow> Inr (count + v)))
        else Inr count)"

definition count_neighbors :: "board \<Rightarrow> int \<Rightarrow> int \<Rightarrow> error + int" where
  "count_neighbors self row col =
     (case grid self of
        None \<Rightarrow> Inl (ValueError GridNotInitialized)
      | Some g \<Rightarrow>
          fold_err (\<lambda>dr. fold_err (\<lambda>dc. neighbor_step self g row col dr dc) [-1, 0, 1])
            [-1, 0, 1] 0)"

definition count_alive :: "board \<Rightarrow> error + int" where
  "count_alive self =
     (case grid self of
        None \<Rightarrow> Inl (ValueError GridNotInitialized)
      | Some g \<Rightarrow> Inr (sum_list (map sum_list g)))"


text \<open>\<open>copy\<close>: a new board object with the same cells and generation.\<close>

definition copy :: "ref \<Rightarrow> store \<Rightarrow> ref outcome" where
  "copy self s =
     (case grid (s ! self) of
        None \<Rightarrow> (Inl (ValueError GridNotInitialized), s)
      | Some g \<Rightarrow>
          (case Board_init (width (s ! self)) (height (s ! self)) s of
             (Inl e, s1) \<Rightarrow> (Inl e, s1)
           | (Inr new_board, s1) \<Rightarrow>
               (Inr new_board,
                s1[new_board := (s1 ! new_board)\<lparr>grid := Some g,
                                                  generation := generation (s1 ! self)\<rparr>])))"

text \<open>
  The invariant of the data model: positive dimensions up to 1000, a rectangular buffer of
  exactly \<open>height\<close> rows of \<open>width\<close> cells, every cell 0 (dead) or 1 (alive). The
  constructor establishes it and \<open>set_cell\<close> keeps it.
\<close>

definition wf_board :: "board \<Rightarrow> bool" where
  "wf_board b =
     (0 < width b \<and> width b \<le> 1000 \<and> 0 < height b \<and> height b \<le> 1000 \<and>
      (case grid b of
         None \<Rightarrow> False
       | Some g \<Rightarrow>
           int (length g) = height b \<and>
           (\<forall>r \<in> set g. int (length r) = width b \<and> (\<forall>c \<in> set r. c = 0 \<or> c = 1))))"

section \<open>rules.py\<close>

text \<open>A statement loop over the store: the first exception ends it, keeping the store.\<close>

fun for_each :: "'a list \<Rightarrow> ('a \<Rightarrow> store \<Rightarrow> unit outcome) \<Rightarrow> store \<Rightarrow> unit outcome" where
  "for_each [] body s = (Inr (), s)"
| "for_each (x # xs) body s =
     (case body x s of
        (Inl e, s') \<Rightarrow> (Inl e, s')
      | (Inr u, s') \<Rightarrow> for_each xs body s')"

text \<open>
  The three \<open>evolve\<close> methods share their frame: build \<open>new_board\<close>, set its generation,
  visit every cell row by row. They differ in the statements run for one cell, given
  below for each class. The decorators \<open>performance_monitor\<close> and \<open>generation_counter\<close>
  only time and count calls for the debug log.
\<close>

definition evolve_cells ::
  "(ref \<Rightarrow> ref \<Rightarrow> int \<Rightarrow> int \<Rightarrow> store \<Rightarrow> unit outcome) \<Rightarrow> ref \<Rightarrow> store \<Rightarrow> ref outcome" where
  "evolve_cells cell b s =
     (case Board_init (width (s ! b)) (height (s ! b)) s of
        (Inl e, s1) \<Rightarrow> (Inl e, s1)
      | (Inr new_board, s1) \<Rightarrow>
          (let s2 = s1[new_board := (s1 ! new_board)\<lparr>generation := generation (s1 ! b) + 1\<rparr>]
           in case for_each (py_range (height (s2 ! b)))
                     (\<lambda>row s'. for_each (py_range (width (s' ! b)))
                                  (\<lambda>col. cell b new_board row col) s') s2 of
                (Inl e, s3) \<Rightarrow> (Inl e, s3)
              | (Inr u, s3) \<Rightarrow> (Inr new_board, s3)))"

definition standard_cell :: "ref \<Rightarrow> ref \<Rightarrow> int \<Rightarrow> int \<Rightarrow> store \<Rightarrow> unit outcome" where
  "standard_cell b new_board row col s =
     (case get_cell (s ! b) row col of
        Inl e \<Rightarrow> (Inl e, s)
      | Inr current_state \<Rightarrow>
          (case count_neighbors (s ! b) row col of
             Inl e \<Rightarrow> (Inl e, s)
           | Inr neighbors \<Rightarrow>
               if current_state = 1 then
                 (if neighbors \<in> {2, 3} then set_cell new_board row col 1 s
                  else set_cell new_board row col 0 s)
               else
                 (if neighbors = 3 then set_cell new_board row col 1 s
                  else set_cell new_board row col 0 s)))"

definition highlife_cell :: "ref \<Rightarrow> ref \<Rightarrow> int \<Rightarrow> int \<Rightarrow> store \<Rightarrow> unit outcome" where
  "highlife_cell b new_board row col s =
     (case get_cell (s ! b) row col of
        Inl e \<Rightarrow> (Inl e, s)
      | Inr current_state \<Rightarrow>
          (case count_neighbors (s ! b) row col of
             Inl e \<Rightarrow> (Inl e, s)
           | Inr neighbors \<Rightarrow>
               if current_state = 1 then
                 (if neighbors \<in> {2, 3} then set_cell new_board row col 1 s
                  else (Inr (), s))
               else
                 (if neighbors \<in> {3, 6} then set_cell new_board row col 1 s
                  else (Inr (), s))))"

definition day_and_night_cell :: "ref \<Rightarrow> ref \<Rightarrow> int \<Rightarrow> int \<Rightarrow> store \<Rightarrow> unit outcome" where
  "day_and_night_cell b new_board row col s =
     (case get_cell (s ! b) row col of
        Inl e \<Rightarrow> (Inl e, s)
      | Inr current_state \<Rightarrow>
          (case count_neighbors (s ! b) row col of
             Inl e \<Rightarrow> (Inl e, s)
           | Inr neighbors \<Rightarrow>
               if current_state = 1 then
                 (if neighbors \<in> {3, 4, 6, 7, 8} then set_cell new_board row col 1 s
                  else (Inr (), s))
               else
                 (if neighbors \<in> {3, 6, 7, 8} then set_cell new_board row col 1 s
                  else (Inr (), s))))"

definition StandardRules_evolve :: "ref \<Rightarrow> store \<Rightarrow> ref outcome" where
  "StandardRules_evolve = evolve_cells standard_cell"

definition HighLifeRules_evolve :: "ref \<Rightarrow> store \<Rightarrow> ref outcome" where
  "HighLifeRules_evolve = evolve_cells highlife_cell"

definition DayAndNightRules_evolve :: "ref \<Rightarrow> store \<Rightarrow> ref outcome" where
  "DayAndNightRules_evolve = evolve_cells day_and_night_cell"

section \<open>metaprogramming.py: the rule registry\<close>

text \<open>
  A rule class is known by its static method \<open>evolve\<close>. The registry \<open>_rules\<close> is a
  Python dict: it lists its keys in the order of their first insertion, and assigning to
  a key that is present replaces the value where the key stands.
\<close>

type_synonym rule_class = "ref \<Rightarrow> store \<Rightarrow> ref outcome"
type_synonym registry = "(string \<times> rule_class) list"

fun dict_set :: "('k \<times> 'v) list \<Rightarrow> 'k \<Rightarrow> 'v \<Rightarrow> ('k \<times> 'v) list" where
  "dict_set [] k v = [(k, v)]"
| "dict_set ((k', v') # d) k v =
     (if k' = k then (k, v) # d else (k', v') # dict_set d k v)"

text \<open>\<open>RuleRegistry.register(name)(rule_class)\<close>: the decorator returns the class.\<close>

definition register :: "string \<Rightarrow> rule_class \<Rightarrow> registry \<Rightarrow> rule_class \<times> registry" where
  "register name rc rules = (rc, dict_set rules name rc)"

definition list_rules :: "registry \<Rightarrow> string list" where
  "list_rules rules = map fst rules"

definition get_rule :: "string \<Rightarrow> registry \<Rightarrow> error + rule_class" where
  "get_rule name rules =
     (case map_of rules name of
        None \<Rightarrow> Inl (ValueError (RuleNotFound (list_rules rules)))
      | Some rc \<Rightarrow> Inr rc)"

definition add_rule_dynamically :: "string \<Rightarrow> rule_class \<Rightarrow> registry \<Rightarrow> rule_class \<times> registry" where
  "add_rule_dynamically name evolve_func rules = (evolve_func, dict_set rules name evolve_func)"

text \<open>The registry once \<open>rules.py\<close> is imported: its three decorated classes, in order.\<close>

definition builtin_rules :: registry where
  "builtin_rules =
     snd (register ''day_and_night'' DayAndNightRules_evolve
       (snd (register ''highlife'' HighLifeRules_evolve
         (snd (register ''standard'' StandardRules_evolve [])))))"


section \<open>simulator.py\<close>

record simulator =
  board :: ref
  rule_class :: rule_class
  rule_name :: string
  history :: "ref list"
  max_generations :: int

text \<open>A method of the simulator may raise, reassign the simulator's fields and mutate boards.\<close>

type_synonym 'a sim_outcome = "(error + 'a) \<times> simulator \<times> store"

definition Simulator_init :: "ref \<Rightarrow> string \<Rightarrow> registry \<Rightarrow> error + simulator" where
  "Simulator_init b name rules =
     (case get_rule name rules of
        Inl e \<Rightarrow> Inl e
      | Inr rc \<Rightarrow>
          Inr \<lparr>board = b, rule_class = rc, rule_name = name, history = [],
               max_generations = 10000\<rparr>)"

definition step :: "simulator \<Rightarrow> store \<Rightarrow> ref sim_outcome" where
  "step self s =
     (case rule_class self (board self) s of
        (Inl e, s') \<Rightarrow> (Inl e, self, s')
      | (Inr nb, s') \<Rightarrow> (Inr nb, self\<lparr>board := nb\<rparr>, s'))"

text \<open>
  The optional callback of \<open>run\<close> is caller code: it receives the board and the number of
  the generation, and may raise or mutate boards.
\<close>

type_synonym callback = "ref \<Rightarrow> int \<Rightarrow> store \<Rightarrow> unit outcome"

text \<open>The \<open>for gen in range(generations)\<close> loop of \<open>run\<close>, with its \<open>break\<close>.\<close>

fun run_loop ::
  "int list \<Rightarrow> callback option \<Rightarrow> bool \<Rightarrow> simulator \<Rightarrow> store \<Rightarrow> unit sim_outcome" where
  "run_loop [] cb save_history self s = (Inr (), self, s)"
| "run_loop (gen # gens) cb save_history self s =
     (case step self s of
        (Inl e, self1, s1) \<Rightarrow> (Inl e, self1, s1)
      | (Inr nb, self1, s1) \<Rightarrow>
          (case (case cb of
                   None \<Rightarrow> (Inr (), s1)
                 | Some f \<Rightarrow> f (board self1) (gen + 1) s1) of
             (Inl e, s2) \<Rightarrow> (Inl e, self1, s2)
           | (Inr u, s2) \<Rightarrow>
               (case (if save_history
                      then (case copy (board self1) s2 of
                              (Inl e, s3) \<Rightarrow> (Inl e, self1, s3)
                            | (Inr c, s3) \<Rightarrow>
                                (Inr (), self1\<lparr>history := history self1 @ [c]\<rparr>, s3))
                      else (Inr (), self1, s2)) of
                  (Inl e, self3, s3) \<Rightarrow> (Inl e, self3, s3)
                | (Inr u, self3, s3) \<Rightarrow>
                    (case count_alive (s3 ! board self3) of
                       Inl e \<Rightarrow> (Inl e, self3, s3)
                     | Inr alive \<Rightarrow>
                         if alive = 0 then (Inr (), self3, s3)
                         else run_loop gens cb save_history self3 s3))))"

definition run ::
  "int \<Rightarrow> callback option \<Rightarrow> bool \<Rightarrow> simulator \<Rightarrow> store \<Rightarrow> ref sim_outcome" where
  "run generations cb save_history self s =
     (if generations > max_generations self then (Inl SimulationOverflowError, self, s)
      else
        case (if save_history
              then (case copy (board self) s of
                      (Inl e, s1) \<Rightarrow> (Inl e, self, s1)
                    | (Inr c, s1) \<Rightarrow> (Inr (), self\<lparr>history := [c]\<rparr>, s1))
              else (Inr (), self, s)) of
          (Inl e, self1, s1) \<Rightarrow> (Inl e, self1, s1)
        | (Inr u, self1, s1) \<Rightarrow>
            (case run_loop (py_range generations) cb save_history self1 s1 of
               (Inl e, self2, s2) \<Rightarrow> (Inl e, self2, s2)
             | (Inr u, self2, s2) \<Rightarrow> (Inr (board self2), self2, s2)))"

text \<open>\<open>str(n)\<close> for an integer, as the f-string of \<open>run_until_stable\<close> formats the period.\<close>

fun str_nat :: "nat \<Rightarrow> string" where
  "str_nat n =
     (if n < 10 then [char_of (48 + n)]
      else str_nat (n div 10) @ [char_of (48 + n mod 10)])"

definition str_int :: "int \<Rightarrow> string" where
  "str_int i = (if i < 0 then CHR ''-'' # str_nat (nat (- i)) else str_nat (nat i))"

text \<open>
  \<open>for i, state in enumerate(previous_states[-100:])\<close>: the position, counted from
  \<open>i\<close>, of the first state equal to the grid.
\<close>

fun find_state :: "int list list \<Rightarrow> nat \<Rightarrow> int list list list \<Rightarrow> nat option" where
  "find_state g i [] = None"
| "find_state g i (state # states) =
     (if g = state then Some i else find_state g (Suc i) states)"

text \<open>\<open>xs[-100:]\<close>: the last 100 elements, all of them if there are fewer.\<close>

definition last_100 :: "'a list \<Rightarrow> 'a list" where
  "last_100 xs = drop (length xs - 100) xs"

text \<open>
  The loop of \<open>run_until_stable\<close> with its local \<open>previous_states\<close>; it returns from
  inside, and falling out of it gives \<open>max_generations_reached\<close>. Iterating over a grid
  that is \<open>None\<close> raises \<open>TypeError\<close>; \<open>gen % 0\<close> raises \<open>ZeroDivisionError\<close>.
\<close>

fun stable_loop ::
  "int list \<Rightarrow> int \<Rightarrow> int list list list \<Rightarrow> simulator \<Rightarrow> store \<Rightarrow> (ref \<times> string) sim_outcome" where
  "stable_loop [] check_period previous_states self s =
     (Inr (board self, ''max_generations_reached''), self, s)"
| "stable_loop (gen # gens) check_period previous_states self s =
     (case grid (s ! board self) of
        None \<Rightarrow> (Inl TypeError, self, s)
      | Some prev_grid \<Rightarrow>
          (case step self s of
             (Inl e, self1, s1) \<Rightarrow> (Inl e, self1, s1)
           | (Inr nb, self1, s1) \<Rightarrow>
               (case count_alive (s1 ! board self1) of
                  Inl e \<Rightarrow> (Inl e, self1, s1)
                | Inr alive \<Rightarrow>
                    if alive = 0 then (Inr (board self1, ''extinction''), self1, s1)
                    else if grid (s1 ! board self1) = Some prev_grid
                    then (Inr (board self1, ''still_life''), self1, s1)
                    else if check_period = 0 then (Inl ZeroDivisionError, self1, s1)
                    else if gen mod check_period = 0 then
                      (case grid (s1 ! board self1) of
                         None \<Rightarrow> (Inl TypeError, self1, s1)
                       | Some g \<Rightarrow>
                           (case find_state g 0 (last_100 previous_states) of
                              Some i \<Rightarrow>
                                (let period = int (length previous_states) - int i
                                 in (Inr (board self1, ''oscillator_period_'' @ str_int period),
                                     self1, s1))
                            | None \<Rightarrow>
                                stable_loop gens check_period (previous_states @ [g]) self1 s1))
                    else stable_loop gens check_period previous_states self1 s1)))"

definition run_until_stable ::
  "int option \<Rightarrow> int \<Rightarrow> simulator \<Rightarrow> store \<Rightarrow> (ref \<times> string) sim_outcome" where
  "run_until_stable max_gens check_period self s =
     stable_loop
       (py_range (case max_gens of None \<Rightarrow> max_generations self | Some m \<Rightarrow> m))
       check_period [] self s"


section \<open>pattern_parser.py\<close>

text \<open>
  A file is the text written to it. Characters are the code points below 256, and
  \<open>py_isspace\<close> lists those of them that \<open>str.strip\<close> removes.
\<close>

definition py_isspace :: "char \<Rightarrow> bool" where
  "py_isspace c = ((of_char c :: nat) \<in> {9, 10, 11, 12, 13, 28, 29, 30, 31, 32, 133, 160})"

definition rstrip :: "string \<Rightarrow> string" where
  "rstrip xs = rev (dropWhile py_isspace (rev xs))"

definition strip :: "string \<Rightarrow> string" where
  "strip xs = dropWhile py_isspace (rstrip xs)"

definition startswith :: "string \<Rightarrow> string \<Rightarrow> bool" where
  "startswith xs p = (take (length p) xs = p)"

text \<open>\<open>content.split(c)\<close> for a one-character separator.\<close>

fun split_on :: "char \<Rightarrow> string \<Rightarrow> string list" where
  "split_on c [] = [[]]"
| "split_on c (x # xs) =
     (if x = c then [] # split_on c xs
      else (case split_on c xs of
              [] \<Rightarrow> [[x]]
            | l # ls \<Rightarrow> (x # l) # ls))"

definition newline :: char where
  "newline = CHR 0x0A"

record pattern =
  pattern_name :: string
  cells :: "(int \<times> int) list"
  pattern_comments :: "string list"
  pattern_format :: string

text \<open>The inner loop of \<open>_parse_plaintext\<close>: the live cells of one line, from column \<open>col\<close>.\<close>

fun line_cells :: "int \<Rightarrow> int \<Rightarrow> string \<Rightarrow> (int \<times> int) list" where
  "line_cells row col [] = []"
| "line_cells row col (ch # chs) =
     (if ch \<in> {CHR ''O'', CHR ''*'', CHR ''1''}
      then (row, col) # line_cells row (col + 1) chs
      else line_cells row (col + 1) chs)"

text \<open>
  The outer loop, \<open>for row, line in enumerate(lines)\<close>, over the lines from number
  \<open>row\<close> on; the pattern carries \<open>name\<close>, \<open>cells\<close> and \<open>comments\<close>.
\<close>

fun plaintext_lines :: "int \<Rightarrow> string list \<Rightarrow> pattern \<Rightarrow> pattern" where
  "plaintext_lines row [] p = p"
| "plaintext_lines row (l # ls) p =
     (let line = rstrip l in
      if startswith line ''#'' then
        (let comment = strip (drop 1 line) in
         if startswith comment ''N ''
         then plaintext_lines (row + 1) ls (p\<lparr>pattern_name := strip (drop 2 comment)\<rparr>)
         else plaintext_lines (row + 1) ls (p\<lparr>pattern_comments := pattern_comments p @ [comment]\<rparr>))
      else plaintext_lines (row + 1) ls (p\<lparr>cells := cells p @ line_cells row 0 line\<rparr>))"

definition parse_plaintext :: "string \<Rightarrow> string \<Rightarrow> error + pattern" where
  "parse_plaintext content filename =
     (let p = plaintext_lines 0 (split_on newline content)
                \<lparr>pattern_name = filename, cells = [], pattern_comments = [],
                 pattern_format = ''plaintext''\<rparr>
      in if cells p = [] then Inl PatternParseError else Inr p)"

text \<open>
  \<open>save_pattern\<close>: the text it writes to the file. Whatever is raised while writing is
  turned into \<open>FileHandlingError\<close>. A name or a comment list that is \<open>None\<close> or empty
  writes nothing.
\<close>

definition save_pattern :: "board \<Rightarrow> string option \<Rightarrow> string list option \<Rightarrow> error + string" where
  "save_pattern b name comments =
     (case count_alive b of
        Inl e \<Rightarrow> Inl FileHandlingError
      | Inr alive \<Rightarrow>
          (case grid b of
             None \<Rightarrow> Inl FileHandlingError
           | Some g \<Rightarrow>
               Inr ((case name of
                       None \<Rightarrow> []
                     | Some n \<Rightarrow> if n = [] then [] else ''#N '' @ n @ [newline])
                    @ (case comments of
                         None \<Rightarrow> []
                       | Some cs \<Rightarrow> concat (map (\<lambda>comment. ''# '' @ comment @ [newline]) cs))
                    @ ''# Generation: '' @ str_int (generation b) @ [newline]
                    @ ''# Alive cells: '' @ str_int alive @ [newline]
                    @ ''#'' @ [newline]
                    @ concat (map (\<lambda>row. map (\<lambda>cell. if cell \<noteq> 0 then CHR ''O'' else CHR ''.'') row
                                         @ [newline]) g))))"


section \<open>Closed forms used in the proofs\<close>

text \<open>
  Nothing below is part of the program: these functions describe what the loops above
  compute, and the lemmas of the second half connect the two.
\<close>

text \<open>
  The state of a cell read straight from the buffer, 0 outside the board: what
  \<open>get_cell\<close> returns on a well-formed board.
\<close>

definition cell_val :: "board \<Rightarrow> int \<Rightarrow> int \<Rightarrow> int" where
  "cell_val b row col =
     (if 0 \<le> row \<and> row < height b \<and> 0 \<le> col \<and> col < width b
      then the (grid b) ! nat row ! nat col else 0)"

text \<open>
  The eight neighbours summed in the order in which \<open>count_neighbors\<close> visits them.
\<close>

definition nbr_count :: "board \<Rightarrow> int \<Rightarrow> int \<Rightarrow> int" where
  "nbr_count b row col =
     cell_val b (row - 1) (col - 1) + cell_val b (row - 1) col + cell_val b (row - 1) (col + 1) +
     cell_val b row (col - 1) + cell_val b row (col + 1) +
     cell_val b (row + 1) (col - 1) + cell_val b (row + 1) col + cell_val b (row + 1) (col + 1)"

text \<open>
  The transition table of a rule: an alive cell stays alive when its neighbour count is
  in \<open>survive\<close>, a dead cell becomes alive when it is in \<open>birth\<close>, every other cell
  is dead.
\<close>

definition rule_next :: "int set \<Rightarrow> int set \<Rightarrow> int \<Rightarrow> int \<Rightarrow> int" where
  "rule_next survive birth current_state neighbors =
     (if current_state = 1 then (if neighbors \<in> survive then 1 else 0)
      else (if neighbors \<in> birth then 1 else 0))"

text \<open>
  The table applied to cell \<open>(r, c)\<close> of a board.
\<close>

definition next_cells :: "int set \<Rightarrow> int set \<Rightarrow> board \<Rightarrow> nat \<Rightarrow> nat \<Rightarrow> int" where
  "next_cells survive birth b r c =
     rule_next survive birth (cell_val b (int r) (int c)) (nbr_count b (int r) (int c))"

text \<open>
  The board that the table prescribes as the successor of \<open>b\<close>.
\<close>

definition next_board :: "int set \<Rightarrow> int set \<Rightarrow> board \<Rightarrow> board" where
  "next_board survive birth b =
     \<lparr>width = width b, height = height b,
      grid = Some (map (\<lambda>r. map (\<lambda>c. next_cells survive birth b r c) [0..<nat (width b)])
                     [0..<nat (height b)]),
      generation = generation b + 1\<rparr>"

text \<open>
  The buffer of \<open>new_board\<close> while the loops of \<open>evolve\<close> run: the cells before
  row \<open>i\<close>, column \<open>j\<close> (in row order) hold their new state \<open>F r c\<close>, the others
  are still 0.
\<close>

definition partial_grid :: "(nat \<Rightarrow> nat \<Rightarrow> int) \<Rightarrow> nat \<Rightarrow> nat \<Rightarrow> nat \<Rightarrow> nat \<Rightarrow> int list list" where
  "partial_grid F H W i j =
     map (\<lambda>r. map (\<lambda>c. if r < i \<or> (r = i \<and> c < j) then F r c else 0) [0..<W]) [0..<H]"

section \<open>Predicates used in the statements\<close>



text \<open>Three cells in a row on a 3 by 3 board, built as the tests build boards.\<close>

definition blinker :: store where
  "blinker =
     snd (set_cell 0 1 2 1 (snd (set_cell 0 1 1 1 (snd (set_cell 0 1 0 1
       (snd (Board_init 3 3 [])))))))"

text \<open>
  The board whose live cells are exactly the 2 by 2 block with top left corner
  \<open>(r, c)\<close>, at any place of a board of any size.
\<close>

definition is_block :: "board \<Rightarrow> int \<Rightarrow> int \<Rightarrow> bool" where
  "is_block b r c =
     (0 \<le> r \<and> r + 1 < height b \<and> 0 \<le> c \<and> c + 1 < width b \<and>
      (\<forall>row \<in> set (py_range (height b)). \<forall>col \<in> set (py_range (width b)).
         get_cell b row col =
           Inr (if (row = r \<or> row = r + 1) \<and> (col = c \<or> col = c + 1) then 1 else 0)))"

text \<open>\<open>evolve(evolve(grid)) == evolve(grid) == grid\<close> for the standard rule.\<close>

definition block_still_life :: "ref \<Rightarrow> store \<Rightarrow> bool" where
  "block_still_life b s =
     (case StandardRules_evolve b s of
        (Inr b1, s1) \<Rightarrow>
          grid (s1 ! b1) = grid (s ! b) \<and>
          (case StandardRules_evolve b1 s1 of
             (Inr b2, s2) \<Rightarrow> grid (s2 ! b2) = grid (s1 ! b1)
           | (Inl e, s2) \<Rightarrow> False)
      | (Inl e, s1) \<Rightarrow> False)"

text \<open>The block in the middle of a 4 by 4 board, as in \<open>test_evolve_grid_block\<close>.\<close>

definition block4 :: store where
  "block4 =
     snd (set_cell 0 2 2 1 (snd (set_cell 0 2 1 1 (snd (set_cell 0 1 2 1 (snd (set_cell 0 1 1 1
       (snd (Board_init 4 4 [])))))))))"

text \<open>The three rule classes that \<open>rules.py\<close> registers.\<close>

definition builtin_rule :: "rule_class \<Rightarrow> bool" where
  "builtin_rule rc =
     (rc = StandardRules_evolve \<or> rc = HighLifeRules_evolve \<or> rc = DayAndNightRules_evolve)"

text \<open>\<open>step\<close> called \<open>k\<close> times in a row.\<close>

fun step_n :: "nat \<Rightarrow> simulator \<Rightarrow> store \<Rightarrow> unit sim_outcome" where
  "step_n 0 self s = (Inr (), self, s)"
| "step_n (Suc k) self s =
     (case step self s of
        (Inl e, self1, s1) \<Rightarrow> (Inl e, self1, s1)
      | (Inr nb, self1, s1) \<Rightarrow> step_n k self1 s1)"

text \<open>The number of alive cells of the simulator's board after \<open>k\<close> steps.\<close>

definition alive_after :: "nat \<Rightarrow> simulator \<Rightarrow> store \<Rightarrow> error + int" where
  "alive_after k self s =
     (case step_n k self s of
        (Inl e, self', s') \<Rightarrow> Inl e
      | (Inr u, self', s') \<Rightarrow> count_alive (s' ! board self'))"

text \<open>
  What \<open>run(generations)\<close> is to return: the simulator's board after some number
  \<open>k \<le> generations\<close> of steps, its generation counter \<open>k\<close> higher than at the start,
  where \<open>k\<close> is \<open>generations\<close> unless at least one step was taken and the board after
  \<open>k\<close> steps has no alive cell, and no board after fewer steps (at least one) had none.
\<close>

definition runs_to_extinction_or_end ::
  "int \<Rightarrow> simulator \<Rightarrow> store \<Rightarrow> ref sim_outcome \<Rightarrow> bool" where
  "runs_to_extinction_or_end generations self s out =
     (case out of
        (Inl e, self', s') \<Rightarrow> False
      | (Inr r, self', s') \<Rightarrow>
          r = board self' \<and>
          (\<exists>k \<in> {0..nat generations}.
             step_n k self s = (Inr (), self', s') \<and>
             generation (s' ! r) = generation (s ! board self) + int k \<and>
             (int k = generations \<or> (0 < k \<and> count_alive (s' ! r) = Inr 0)) \<and>
             (\<forall>j \<in> {1..<k}. alive_after j self s \<noteq> Inr 0)))"

text \<open>One alive cell in the middle of a 3 by 3 board.\<close>

definition lonely :: store where
  "lonely = snd (set_cell 0 1 1 1 (snd (Board_init 3 3 [])))"

text \<open>
  The live cells of a board as \<open>(row, col)\<close> pairs, read with \<open>get_cell\<close> in row order.
\<close>

definition live_cells :: "board \<Rightarrow> (int \<times> int) list" where
  "live_cells b =
     [(row, col). row \<leftarrow> py_range (height b), col \<leftarrow> py_range (width b),
                  get_cell b row col = Inr 1]"

text \<open>The character \<open>save_pattern\<close> writes for a cell.\<close>

definition cell_char :: "int \<Rightarrow> char" where
  "cell_char cell = (if cell \<noteq> 0 then CHR ''O'' else CHR ''.'')"

text \<open>The cells \<open>_parse_plaintext\<close> finds in the written rows of a grid, from line \<open>r\<close> on.\<close>

fun grid_cells :: "int \<Rightarrow> int list list \<Rightarrow> (int \<times> int) list" where
  "grid_cells r [] = []"
| "grid_cells r (row # g) = line_cells r 0 (map cell_char row) @ grid_cells (r + 1) g"

text \<open>
  Saving a board with the default arguments and parsing the text as plaintext: the
  parse fails with \<open>PatternParseError\<close> when the board has no live cell, and otherwise
  gives the live cells of the board with their columns and every row \<open>k\<close> lines further
  down.
\<close>

definition reparsed_rows_moved :: "int \<Rightarrow> board \<Rightarrow> string \<Rightarrow> bool" where
  "reparsed_rows_moved k b filename =
     (case save_pattern b None None of
        Inl e \<Rightarrow> False
      | Inr content \<Rightarrow>
          (case parse_plaintext content filename of
             Inl e \<Rightarrow> e = PatternParseError \<and> live_cells b = []
           | Inr p \<Rightarrow>
               live_cells b \<noteq> [] \<and>
               set (cells p) = (\<lambda>(row, col). (row + k, col)) ` set (live_cells b)))"

text \<open>
  The successor board computed row by row, without subscripts: \<open>sums3\<close> adds to every
  element of a list its two neighbours in the list (0 beyond the ends), by adding the
  list to its two shifts.
\<close>

definition sums3 :: "'a \<Rightarrow> ('a \<Rightarrow> 'a \<Rightarrow> 'a \<Rightarrow> 'a) \<Rightarrow> 'a list \<Rightarrow> 'a list" where
  "sums3 z f xs = map (\<lambda>(a, b, c). f a b c) (zip (z # xs) (zip xs (tl xs @ [z])))"

text \<open>The sum of three numbers, and of three rows element by element.\<close>

definition add3 :: "int \<Rightarrow> int \<Rightarrow> int \<Rightarrow> int" where
  "add3 a b c = a + b + c"

definition add3_rows :: "int list \<Rightarrow> int list \<Rightarrow> int list \<Rightarrow> int list" where
  "add3_rows a b c = map (\<lambda>(x, y, z). x + y + z) (zip a (zip b c))"

text \<open>
  For every cell the sum of the 3 by 3 block around it (0 beyond the edges): first along
  each row, then across the rows.
\<close>

definition block_sums :: "nat \<Rightarrow> int list list \<Rightarrow> int list list" where
  "block_sums W g = sums3 (replicate W 0) add3_rows (map (sums3 0 add3) g)"

text \<open>
  The table applied to every cell of a grid; the neighbour count of a cell is the sum of
  its block without the cell itself.
\<close>

definition next_grid :: "int set \<Rightarrow> int set \<Rightarrow> nat \<Rightarrow> int list list \<Rightarrow> int list list" where
  "next_grid survive birth W g =
     map (\<lambda>(row, sums). map (\<lambda>(v, n). rule_next survive birth v (n - v)) (zip row sums))
       (zip g (block_sums W g))"

text \<open>An element of a row, 0 outside the row.\<close>

definition at0 :: "int list \<Rightarrow> int \<Rightarrow> int" where
  "at0 xs k = (if 0 \<le> k \<and> k < int (length xs) then xs ! nat k else 0)"

text \<open>A cell of row \<open>k\<close> of a board and its two neighbours in that row.\<close>

definition row_sum :: "board \<Rightarrow> int \<Rightarrow> nat \<Rightarrow> int" where
  "row_sum b k j = cell_val b k (int j - 1) + cell_val b k (int j) + cell_val b k (int j + 1)"

text \<open>The successor board, row by row.\<close>

definition successor :: "int set \<Rightarrow> int set \<Rightarrow> board \<Rightarrow> board" where
  "successor survive birth b =
     \<lparr>width = width b, height = height b,
      grid = map_option (next_grid survive birth (nat (width b))) (grid b),
      generation = generation b + 1\<rparr>"

text \<open>
  An 8 by 8 board that the standard rule takes through more than a hundred different
  grids before only a blinker is left.
\<close>

definition late_blinker :: store where
  "late_blinker =
     [\<lparr>width = 8, height = 8,
       grid = Some [[0, 1, 1, 0, 0, 1, 0, 1],
                    [0, 0, 0, 1, 0, 0, 0, 1],
                    [0, 1, 1, 0, 0, 0, 1, 0],
                    [0, 0, 1, 1, 1, 0, 1, 1],
                    [0, 0, 0, 0, 0, 1, 0, 0],
                    [1, 1, 1, 1, 0, 0, 1, 1],
                    [0, 1, 1, 0, 1, 0, 0, 0],
                    [0, 0, 0, 0, 0, 0, 0, 0]],
       generation = 0\<rparr>]"

text \<open>The simulator \<open>Simulator(board)\<close>: the standard rule, as the constructor sets it up.\<close>

definition standard_simulator :: "ref \<Rightarrow> simulator" where
  "standard_simulator b =
     \<lparr>board = b, rule_class = StandardRules_evolve, rule_name = ''standard'',
      history = [], max_generations = 10000\<rparr>"

text \<open>
  The loop of \<open>run_until_stable\<close> on board values: \<open>b\<close> is the simulator's board, each
  generation is the successor board \<open>b'\<close> of the table, and the boards built on the way
  are returned with the classification. \<open>stable_check\<close> is the body of the loop after
  \<open>step\<close>.
\<close>

fun stable_boards ::
  "int set \<Rightarrow> int set \<Rightarrow> int list \<Rightarrow> int \<Rightarrow> int list list list \<Rightarrow> board
   \<Rightarrow> (error + string) \<times> board list"
and stable_check ::
  "int set \<Rightarrow> int set \<Rightarrow> int \<Rightarrow> int list \<Rightarrow> int \<Rightarrow> int list list list \<Rightarrow> board \<Rightarrow> board
   \<Rightarrow> (error + string) \<times> board list" where
  "stable_boards survive birth [] check_period previous_states b =
     (Inr ''max_generations_reached'', [])"
| "stable_boards survive birth (gen # gens) check_period previous_states b =
     stable_check survive birth gen gens check_period previous_states b
       (successor survive birth b)"
| "stable_check survive birth gen gens check_period previous_states b b' =
     (case count_alive b' of
        Inl e \<Rightarrow> (Inl e, [b'])
      | Inr alive \<Rightarrow>
          if alive = 0 then (Inr ''extinction'', [b'])
          else if grid b' = grid b then (Inr ''still_life'', [b'])
          else if check_period = 0 then (Inl ZeroDivisionError, [b'])
          else if gen mod check_period = 0 then
            (case grid b' of
               None \<Rightarrow> (Inl TypeError, [b'])
             | Some g \<Rightarrow>
                 (case find_state g 0 (last_100 previous_states) of
                    Some i \<Rightarrow>
                      (Inr (''oscillator_period_'' @
                            str_int (int (length previous_states) - int i)), [b'])
                  | None \<Rightarrow>
                      (case stable_boards survive birth gens check_period
                              (previous_states @ [g]) b' of
                         (r, bs) \<Rightarrow> (r, b' # bs))))
          else (case stable_boards survive birth gens check_period previous_states b' of
                  (r, bs) \<Rightarrow> (r, b' # bs)))"

text \<open>The reference of the last of \<open>n\<close> boards appended to a store of \<open>l\<close> boards.\<close>

definition last_ref :: "ref \<Rightarrow> nat \<Rightarrow> nat \<Rightarrow> ref" where
  "last_ref b l n = (if n = 0 then b else l + n - 1)"

text \<open>
  What the run on \<open>late_blinker\<close> gives, on the classification and the boards built:
  103 boards, the last one of generation 103, equal in its grid to the board two
  generations before and different from the board one generation before.
\<close>

definition period_two_reported_as_four :: "(error + string) \<times> board list \<Rightarrow> bool" where
  "period_two_reported_as_four out =
     (case out of
        (r, bs) \<Rightarrow>
          r = Inr ''oscillator_period_4'' \<and> length bs = 103 \<and>
          generation (bs ! 102) = 103 \<and>
          grid (bs ! 102) = grid (bs ! 100) \<and> grid (bs ! 102) \<noteq> grid (bs ! 101))"

text \<open>\<open>Simulator(board).run_until_stable()\<close> on the board \<open>late_blinker\<close>.\<close>

definition late_blinker_run :: "(ref \<times> string) sim_outcome" where
  "late_blinker_run = run_until_stable None 1 (standard_simulator 0) late_blinker"

section \<open>Properties of the board\<close>

text \<open>
  C4. Reading a cell outside \<open>[0, height) \<times> [0, width)\<close> of a board that has a grid
  returns 0 (DEAD) and raises nothing: the bounds test comes before any indexing, so
  the result does not depend on the shape of the buffer.
\<close>

theorem get_cell_out_of_bounds:
  assumes "grid b \<noteq> None"
    and "\<not> (0 \<le> row \<and> row < height b \<and> 0 \<le> col \<and> col < width b)"
  shows "get_cell b row col = Inr 0"
  using assms by (auto simp: get_cell_def)

theorem get_cell_out_of_bounds_witness:
  "get_cell (snd (Board_init 3 2 []) ! 0) (-1) 5 = Inr 0 \<and>
   get_cell (snd (Board_init 3 2 []) ! 0) 2 0 = Inr 0"
  using get_cell_out_of_bounds [of "snd (Board_init 3 2 []) ! 0" "-1" 5]
        get_cell_out_of_bounds [of "snd (Board_init 3 2 []) ! 0" 2 0]
  by (simp add: Board_init_def)

text \<open>
  C10. A call of \<open>set_cell\<close> that does not succeed leaves the whole store as it was, so
  no cell and no generation counter changes. On a board that has a grid, a position out
  of bounds raises \<open>IndexError\<close> whatever the value is, and only a position in bounds
  with a value other than 0 and 1 raises the \<open>ValueError\<close> of the value check.
\<close>

theorem set_cell_failure_atomic:
  "(fst (set_cell self row col v s) \<noteq> Inr () \<longrightarrow> snd (set_cell self row col v s) = s) \<and>
   (grid (s ! self) \<noteq> None \<and>
    \<not> (0 \<le> row \<and> row < height (s ! self) \<and> 0 \<le> col \<and> col < width (s ! self)) \<longrightarrow>
      set_cell self row col v s = (Inl IndexError, s)) \<and>
   (grid (s ! self) \<noteq> None \<and>
    0 \<le> row \<and> row < height (s ! self) \<and> 0 \<le> col \<and> col < width (s ! self) \<and>
    v \<notin> {0, 1} \<longrightarrow>
      set_cell self row col v s = (Inl (ValueError CellValueNot01), s))"
  by (auto simp: set_cell_def split: option.splits sum.splits)

theorem set_cell_failure_atomic_witness:
  "set_cell 0 5 5 7 (snd (Board_init 2 2 [])) = (Inl IndexError, snd (Board_init 2 2 [])) \<and>
   set_cell 0 1 1 7 (snd (Board_init 2 2 [])) =
     (Inl (ValueError CellValueNot01), snd (Board_init 2 2 []))"
  using set_cell_failure_atomic [of 0 5 5 7 "snd (Board_init 2 2 [])"]
        set_cell_failure_atomic [of 0 1 1 7 "snd (Board_init 2 2 [])"]
  by (simp add: Board_init_def)

section \<open>Properties of the rule registry\<close>

lemma dict_set_keys:
  "map fst (dict_set d k v) = (if k \<in> set (map fst d) then map fst d else map fst d @ [k])"
proof (induction d)
  case Nil
  then show ?case by simp
next
  case (Cons p d)
  then show ?case by (cases p) force
qed

lemma dict_set_map_of: "map_of (dict_set d k v) k = Some v"
  by (induction d) auto

lemma count_list_distinct: "distinct xs \<Longrightarrow> x \<in> set xs \<Longrightarrow> count_list xs x = 1"
  by (induction xs) auto

text \<open>
  C9. \<open>register\<close> cannot raise. On a registry (a dict, so with distinct keys) it keeps
  the list of names as it was when the name is already there, appends the name when it
  is new, and in both cases the name then occurs exactly once and is looked up to the
  rule just registered. The names therefore stay in the order of their first insertion.
\<close>

theorem register_overwrites:
  assumes "distinct (list_rules rules)"
  shows "fst (register name rc rules) = rc \<and>
         list_rules (snd (register name rc rules)) =
           (if name \<in> set (list_rules rules) then list_rules rules
            else list_rules rules @ [name]) \<and>
         count_list (list_rules (snd (register name rc rules))) name = 1 \<and>
         distinct (list_rules (snd (register name rc rules))) \<and>
         get_rule name (snd (register name rc rules)) = Inr rc"
  using assms
  by (auto simp: register_def list_rules_def get_rule_def dict_set_keys dict_set_map_of
      count_list_distinct)

theorem register_overwrites_witness:
  "distinct (list_rules builtin_rules) \<and>
   list_rules (snd (register ''highlife'' StandardRules_evolve builtin_rules)) =
     [''standard'', ''highlife'', ''day_and_night''] \<and>
   get_rule ''highlife'' (snd (register ''highlife'' StandardRules_evolve builtin_rules)) =
     Inr StandardRules_evolve"
  using register_overwrites [of builtin_rules "''highlife''" StandardRules_evolve]
  by (simp add: builtin_rules_def register_def list_rules_def)

section \<open>One generation\<close>

lemma wf_board_nth:
  assumes "wf_board b" "0 \<le> row" "row < height b" "0 \<le> col" "col < width b"
  shows "\<exists>g. grid b = Some g \<and> int (length g) = height b \<and> nat row < length g \<and>
             int (length (g ! nat row)) = width b \<and> nat col < length (g ! nat row) \<and>
             (g ! nat row ! nat col = 0 \<or> g ! nat row ! nat col = 1)"
proof -
  from assms(1) obtain g where g: "grid b = Some g" "int (length g) = height b"
    "\<forall>r \<in> set g. int (length r) = width b \<and> (\<forall>c \<in> set r. c = 0 \<or> c = 1)"
    by (auto simp: wf_board_def split: option.splits)
  have r: "nat row < length g" using assms g by linarith
  then have m: "g ! nat row \<in> set g" by simp
  with g have l: "int (length (g ! nat row)) = width b" by blast
  then have c: "nat col < length (g ! nat row)" using assms by linarith
  then have "g ! nat row ! nat col \<in> set (g ! nat row)" by simp
  with g m have "g ! nat row ! nat col = 0 \<or> g ! nat row ! nat col = 1" by blast
  with g r l c show ?thesis by blast
qed

lemma get_cell_wf: "wf_board b \<Longrightarrow> get_cell b row col = Inr (cell_val b row col)"
proof (cases "0 \<le> row \<and> row < height b \<and> 0 \<le> col \<and> col < width b")
  case True
  assume "wf_board b"
  with True obtain g where "grid b = Some g" "int (length g) = height b" "nat row < length g"
    "int (length (g ! nat row)) = width b" "nat col < length (g ! nat row)"
    using wf_board_nth [of b row col] by auto
  with True show ?thesis
    by (simp add: get_cell_def cell_val_def list_get_def py_index_def)
next
  case False
  assume "wf_board b"
  then have "grid b \<noteq> None" by (cases "grid b") (auto simp: wf_board_def)
  with False show ?thesis by (auto simp: get_cell_def cell_val_def)
qed

lemma cell_val_01: "wf_board b \<Longrightarrow> cell_val b row col = 0 \<or> cell_val b row col = 1"
  using wf_board_nth [of b row col] by (auto simp: cell_val_def)

lemma neighbor_step_wf:
  assumes "wf_board b" "grid b = Some g"
  shows "neighbor_step b g row col dr dc count =
         Inr (count + (if dr = 0 \<and> dc = 0 then 0 else cell_val b (row + dr) (col + dc)))"
proof (cases "0 \<le> row + dr \<and> row + dr < height b \<and> 0 \<le> col + dc \<and> col + dc < width b")
  case True
  with assms obtain "int (length g) = height b" "nat (row + dr) < length g"
    "int (length (g ! nat (row + dr))) = width b" "nat (col + dc) < length (g ! nat (row + dr))"
    using wf_board_nth [of b "row + dr" "col + dc"] by auto
  with True assms(2) show ?thesis
    by (simp add: neighbor_step_def cell_val_def list_get_def py_index_def Let_def)
next
  case False
  then show ?thesis by (auto simp: neighbor_step_def cell_val_def Let_def)
qed

lemma count_neighbors_wf:
  assumes "wf_board b"
  shows "count_neighbors b row col = Inr (nbr_count b row col)"
proof -
  from assms obtain g where g: "grid b = Some g" by (auto simp: wf_board_def split: option.splits)
  show ?thesis
    by (simp add: count_neighbors_def g neighbor_step_wf [OF assms g] nbr_count_def)
qed

lemma nbr_count_range: "wf_board b \<Longrightarrow> 0 \<le> nbr_count b row col \<and> nbr_count b row col \<le> 8"
  using cell_val_01 [of b "row - 1" "col - 1"] cell_val_01 [of b "row - 1" col]
    cell_val_01 [of b "row - 1" "col + 1"] cell_val_01 [of b row "col - 1"]
    cell_val_01 [of b row "col + 1"] cell_val_01 [of b "row + 1" "col - 1"]
    cell_val_01 [of b "row + 1" col] cell_val_01 [of b "row + 1" "col + 1"]
  unfolding nbr_count_def by linarith

lemma partial_grid_length: "length (partial_grid F H W i j) = H"
  by (simp add: partial_grid_def)

lemma partial_grid_row_length: "r < H \<Longrightarrow> length (partial_grid F H W i j ! r) = W"
  by (simp add: partial_grid_def)

lemma partial_grid_nth:
  "r < H \<Longrightarrow> c < W \<Longrightarrow>
   partial_grid F H W i j ! r ! c = (if r < i \<or> (r = i \<and> c < j) then F r c else 0)"
  by (simp add: partial_grid_def)

lemma partial_grid_start: "partial_grid F H W 0 0 = replicate H (replicate W 0)"
  by (simp add: partial_grid_def map_replicate_trivial)

lemma partial_grid_write:
  assumes "i < H" "j < W"
  shows "(partial_grid F H W i j)[i := (partial_grid F H W i j ! i)[j := F i j]] =
         partial_grid F H W i (Suc j)"
proof (rule nth_equalityI)
  show "length ((partial_grid F H W i j)[i := (partial_grid F H W i j ! i)[j := F i j]]) =
        length (partial_grid F H W i (Suc j))"
    by (simp add: partial_grid_length)
next
  fix r
  assume "r < length ((partial_grid F H W i j)[i := (partial_grid F H W i j ! i)[j := F i j]])"
  then have r: "r < H" by (simp add: partial_grid_length)
  show "(partial_grid F H W i j)[i := (partial_grid F H W i j ! i)[j := F i j]] ! r =
        partial_grid F H W i (Suc j) ! r"
  proof (rule nth_equalityI)
    show "length ((partial_grid F H W i j)[i := (partial_grid F H W i j ! i)[j := F i j]] ! r) =
          length (partial_grid F H W i (Suc j) ! r)"
      using r assms by (simp add: nth_list_update partial_grid_length partial_grid_row_length)
  next
    fix c
    assume "c < length ((partial_grid F H W i j)[i := (partial_grid F H W i j ! i)[j := F i j]] ! r)"
    then have c: "c < W"
      using r assms by (simp add: nth_list_update partial_grid_length partial_grid_row_length
          split: if_splits)
    show "(partial_grid F H W i j)[i := (partial_grid F H W i j ! i)[j := F i j]] ! r ! c =
          partial_grid F H W i (Suc j) ! r ! c"
      using r c assms
      by (auto simp: nth_list_update partial_grid_length partial_grid_row_length partial_grid_nth)
  qed
qed

lemma partial_grid_row_done: "partial_grid F H W i W = partial_grid F H W (Suc i) 0"
  by (auto simp: partial_grid_def)

lemma partial_grid_done:
  "partial_grid F H W H 0 = map (\<lambda>r. map (\<lambda>c. F r c) [0..<W]) [0..<H]"
  by (auto simp: partial_grid_def)

lemma set_cell_fresh:
  assumes "width x = int W" "height x = int H" "grid x = Some g" "length g = H"
    "length (g ! i) = W" "i < H" "j < W" "v = 0 \<or> v = 1"
  shows "set_cell (length s0) (int i) (int j) v (s0 @ [x]) =
         (Inr (), s0 @ [x\<lparr>grid := Some (g[i := (g ! i)[j := v]])\<rparr>])"
  using assms by (auto simp: set_cell_def list_get_def list_set_def py_index_def)

lemma partial_grid_write_fresh:
  assumes "grid x = Some (partial_grid F H W i j)" "width x = int W" "height x = int H"
    "i < H" "j < W" "F i j = 0 \<or> F i j = 1"
  shows "set_cell (length s0) (int i) (int j) (F i j) (s0 @ [x]) =
         (Inr (), s0 @ [x\<lparr>grid := Some (partial_grid F H W i (Suc j))\<rparr>])"
  using set_cell_fresh [OF assms(2,3,1) partial_grid_length
      partial_grid_row_length [OF assms(4)] assms(4,5,6), of s0]
  by (simp add: partial_grid_write [OF assms(4,5)])

lemma partial_grid_skip:
  assumes "grid x = Some (partial_grid F H W i j)" "i < H" "j < W" "F i j = 0"
  shows "x\<lparr>grid := Some (partial_grid F H W i (Suc j))\<rparr> = x"
proof -
  have "partial_grid F H W i j ! i ! j = 0"
    using assms by (simp add: partial_grid_nth)
  then have "(partial_grid F H W i j)[i := (partial_grid F H W i j ! i)[j := F i j]] =
             partial_grid F H W i j"
    using assms by (metis list_update_id)
  then have "partial_grid F H W i (Suc j) = partial_grid F H W i j"
    using partial_grid_write [OF assms(2,3), of F] by simp
  with assms(1) show ?thesis by simp
qed

lemma standard_cell_fresh:
  assumes "b < length s0" "wf_board (s0 ! b)"
    "grid x = Some (partial_grid (next_cells {2, 3} {3} (s0 ! b)) H W i j)"
    "width x = int W" "height x = int H" "i < H" "j < W"
  shows "standard_cell b (length s0) (int i) (int j) (s0 @ [x]) =
         (Inr (), s0 @ [x\<lparr>grid := Some (partial_grid (next_cells {2, 3} {3} (s0 ! b)) H W i (Suc j))\<rparr>])"
proof -
  let ?F = "next_cells {2, 3} {3} (s0 ! b)"
  have F01: "?F i j = 0 \<or> ?F i j = 1" by (simp add: next_cells_def rule_next_def)
  have w: "set_cell (length s0) (int i) (int j) (?F i j) (s0 @ [x]) =
         (Inr (), s0 @ [x\<lparr>grid := Some (partial_grid ?F H W i (Suc j))\<rparr>])"
    by (rule partial_grid_write_fresh [OF assms(3,4,5,6,7) F01])
  have e: "standard_cell b (length s0) (int i) (int j) (s0 @ [x]) =
           set_cell (length s0) (int i) (int j) (?F i j) (s0 @ [x])"
    using assms(1,2)
    by (simp add: standard_cell_def nth_append get_cell_wf count_neighbors_wf
        next_cells_def rule_next_def)
  show ?thesis by (simp only: e w)
qed

lemma highlife_cell_fresh:
  assumes "b < length s0" "wf_board (s0 ! b)"
    "grid x = Some (partial_grid (next_cells {2, 3} {3, 6} (s0 ! b)) H W i j)"
    "width x = int W" "height x = int H" "i < H" "j < W"
  shows "highlife_cell b (length s0) (int i) (int j) (s0 @ [x]) =
         (Inr (), s0 @ [x\<lparr>grid := Some (partial_grid (next_cells {2, 3} {3, 6} (s0 ! b)) H W i (Suc j))\<rparr>])"
proof -
  let ?F = "next_cells {2, 3} {3, 6} (s0 ! b)"
  have F01: "?F i j = 0 \<or> ?F i j = 1" by (simp add: next_cells_def rule_next_def)
  have w: "set_cell (length s0) (int i) (int j) (?F i j) (s0 @ [x]) =
         (Inr (), s0 @ [x\<lparr>grid := Some (partial_grid ?F H W i (Suc j))\<rparr>])"
    by (rule partial_grid_write_fresh [OF assms(3,4,5,6,7) F01])
  have k: "?F i j = 0 \<Longrightarrow> x\<lparr>grid := Some (partial_grid ?F H W i (Suc j))\<rparr> = x"
    by (rule partial_grid_skip [OF assms(3,6,7)])
  have e: "highlife_cell b (length s0) (int i) (int j) (s0 @ [x]) =
           (if ?F i j = 0 then (Inr (), s0 @ [x])
            else set_cell (length s0) (int i) (int j) (?F i j) (s0 @ [x]))"
    using assms(1,2)
    by (simp add: highlife_cell_def nth_append get_cell_wf count_neighbors_wf
        next_cells_def rule_next_def)
  show ?thesis
  proof (cases "?F i j = 0")
    case True
    with e k show ?thesis by simp
  next
    case False
    with e w show ?thesis by simp
  qed
qed

lemma day_and_night_cell_fresh:
  assumes "b < length s0" "wf_board (s0 ! b)"
    "grid x = Some (partial_grid (next_cells {3, 4, 6, 7, 8} {3, 6, 7, 8} (s0 ! b)) H W i j)"
    "width x = int W" "height x = int H" "i < H" "j < W"
  shows "day_and_night_cell b (length s0) (int i) (int j) (s0 @ [x]) =
         (Inr (), s0 @ [x\<lparr>grid := Some (partial_grid (next_cells {3, 4, 6, 7, 8} {3, 6, 7, 8} (s0 ! b)) H W i (Suc j))\<rparr>])"
proof -
  let ?F = "next_cells {3, 4, 6, 7, 8} {3, 6, 7, 8} (s0 ! b)"
  have F01: "?F i j = 0 \<or> ?F i j = 1" by (simp add: next_cells_def rule_next_def)
  have w: "set_cell (length s0) (int i) (int j) (?F i j) (s0 @ [x]) =
         (Inr (), s0 @ [x\<lparr>grid := Some (partial_grid ?F H W i (Suc j))\<rparr>])"
    by (rule partial_grid_write_fresh [OF assms(3,4,5,6,7) F01])
  have k: "?F i j = 0 \<Longrightarrow> x\<lparr>grid := Some (partial_grid ?F H W i (Suc j))\<rparr> = x"
    by (rule partial_grid_skip [OF assms(3,6,7)])
  have e: "day_and_night_cell b (length s0) (int i) (int j) (s0 @ [x]) =
           (if ?F i j = 0 then (Inr (), s0 @ [x])
            else set_cell (length s0) (int i) (int j) (?F i j) (s0 @ [x]))"
    using assms(1,2)
    by (simp add: day_and_night_cell_def nth_append get_cell_wf count_neighbors_wf
        next_cells_def rule_next_def)
  show ?thesis
  proof (cases "?F i j = 0")
    case True
    with e k show ?thesis by simp
  next
    case False
    with e w show ?thesis by simp
  qed
qed

lemma row_loop_fresh:
  assumes cell: "\<And>j x. j < W \<Longrightarrow> grid x = Some (partial_grid F H W i j) \<Longrightarrow>
      width x = int W \<Longrightarrow> height x = int H \<Longrightarrow>
      cell b (length s0) (int i) (int j) (s0 @ [x]) =
        (Inr (), s0 @ [x\<lparr>grid := Some (partial_grid F H W i (Suc j))\<rparr>])"
    and "grid x = Some (partial_grid F H W i j0)" "width x = int W" "height x = int H" "j0 \<le> W"
  shows "for_each (map int [j0..<W]) (\<lambda>col. cell b (length s0) (int i) col) (s0 @ [x]) =
         (Inr (), s0 @ [x\<lparr>grid := Some (partial_grid F H W i W)\<rparr>])"
  using assms(2-)
proof (induction "W - j0" arbitrary: j0 x)
  case 0
  then have "j0 = W" by simp
  with 0 show ?case by simp
next
  case (Suc n)
  then have lt: "j0 < W" by simp
  let ?x = "x\<lparr>grid := Some (partial_grid F H W i (Suc j0))\<rparr>"
  have c: "cell b (length s0) (int i) (int j0) (s0 @ [x]) = (Inr (), s0 @ [?x])"
    using cell [OF lt Suc.prems(1,2,3)] .
  have ih: "for_each (map int [Suc j0..<W]) (\<lambda>col. cell b (length s0) (int i) col) (s0 @ [?x]) =
            (Inr (), s0 @ [?x\<lparr>grid := Some (partial_grid F H W i W)\<rparr>])"
    using Suc.hyps(1) [of "Suc j0" ?x] Suc.hyps(2) Suc.prems lt by simp
  show ?case
    using c ih lt by (simp add: upt_conv_Cons)
qed

lemma grid_loop_fresh:
  assumes cell: "\<And>i j x. i < H \<Longrightarrow> j < W \<Longrightarrow> grid x = Some (partial_grid F H W i j) \<Longrightarrow>
      width x = int W \<Longrightarrow> height x = int H \<Longrightarrow>
      cell b (length s0) (int i) (int j) (s0 @ [x]) =
        (Inr (), s0 @ [x\<lparr>grid := Some (partial_grid F H W i (Suc j))\<rparr>])"
    and b: "b < length s0" "width (s0 ! b) = int W"
    and "grid x = Some (partial_grid F H W i0 0)" "width x = int W" "height x = int H" "i0 \<le> H"
  shows "for_each (map int [i0..<H])
           (\<lambda>row s'. for_each (py_range (width (s' ! b))) (\<lambda>col. cell b (length s0) row col) s')
           (s0 @ [x]) =
         (Inr (), s0 @ [x\<lparr>grid := Some (partial_grid F H W H 0)\<rparr>])"
  using assms(4-)
proof (induction "H - i0" arbitrary: i0 x)
  case 0
  then have "i0 = H" by simp
  with 0 show ?case by simp
next
  case (Suc n)
  then have lt: "i0 < H" by simp
  let ?x = "x\<lparr>grid := Some (partial_grid F H W (Suc i0) 0)\<rparr>"
  have r: "for_each (map int [0..<W]) (\<lambda>col. cell b (length s0) (int i0) col) (s0 @ [x]) =
           (Inr (), s0 @ [?x])"
  proof -
    have "for_each (map int [0..<W]) (\<lambda>col. cell b (length s0) (int i0) col) (s0 @ [x]) =
           (Inr (), s0 @ [x\<lparr>grid := Some (partial_grid F H W i0 W)\<rparr>])"
      by (rule row_loop_fresh [where F = F and H = H and W = W and i = i0 and ?j0.0 = 0
            and cell = cell and b = b and ?s0.0 = s0 and x = x,
            OF cell [OF lt] Suc.prems(1,2,3)]) simp_all
    then show ?thesis by (simp only: partial_grid_row_done)
  qed
  have ih: "for_each (map int [Suc i0..<H])
           (\<lambda>row s'. for_each (py_range (width (s' ! b))) (\<lambda>col. cell b (length s0) row col) s')
           (s0 @ [?x]) =
         (Inr (), s0 @ [?x\<lparr>grid := Some (partial_grid F H W H 0)\<rparr>])"
    using Suc.hyps(1) [of "Suc i0" ?x] Suc.hyps(2) Suc.prems lt by simp
  have u: "[i0..<H] = i0 # [Suc i0..<H]"
    using lt by (rule upt_conv_Cons)
  have w: "py_range (width ((s0 @ [x]) ! b)) = map int [0..<W]"
    using b by (simp add: nth_append py_range_def)
  show ?case
    unfolding u by (simp add: w r ih)
qed

lemma evolve_cells_wf:
  assumes cell: "\<And>i j x. i < nat (height (s ! b)) \<Longrightarrow> j < nat (width (s ! b)) \<Longrightarrow>
      grid x = Some (partial_grid (next_cells survive birth (s ! b))
                       (nat (height (s ! b))) (nat (width (s ! b))) i j) \<Longrightarrow>
      width x = int (nat (width (s ! b))) \<Longrightarrow> height x = int (nat (height (s ! b))) \<Longrightarrow>
      cell b (length s) (int i) (int j) (s @ [x]) =
        (Inr (), s @ [x\<lparr>grid := Some (partial_grid (next_cells survive birth (s ! b))
                       (nat (height (s ! b))) (nat (width (s ! b))) i (Suc j))\<rparr>])"
    and b: "b < length s" and wf: "wf_board (s ! b)"
  shows "evolve_cells cell b s = (Inr (length s), s @ [next_board survive birth (s ! b)])"
proof -
  let ?W = "nat (width (s ! b))" and ?H = "nat (height (s ! b))"
  let ?F = "next_cells survive birth (s ! b)"
  let ?x = "\<lparr>width = width (s ! b), height = height (s ! b),
             grid = Some (replicate ?H (replicate ?W 0)),
             generation = generation (s ! b) + 1\<rparr>"
  from wf have dims: "0 < width (s ! b)" "width (s ! b) \<le> 1000" "0 < height (s ! b)"
    "height (s ! b) \<le> 1000"
    by (auto simp: wf_board_def)
  have init: "Board_init (width (s ! b)) (height (s ! b)) s =
      (Inr (length s), s @ [\<lparr>width = width (s ! b), height = height (s ! b),
             grid = Some (replicate ?H (replicate ?W 0)), generation = 0\<rparr>])"
    using dims by (simp add: Board_init_def)
  have loop: "for_each (map int [0..<?H])
           (\<lambda>row s'. for_each (py_range (width (s' ! b))) (\<lambda>col. cell b (length s) row col) s')
           (s @ [?x]) =
         (Inr (), s @ [?x\<lparr>grid := Some (partial_grid ?F ?H ?W ?H 0)\<rparr>])"
  proof -
    have g0: "grid ?x = Some (partial_grid ?F ?H ?W 0 0)" by (simp add: partial_grid_start)
    have w: "width ?x = int ?W" and h: "height ?x = int ?H" and bw: "width (s ! b) = int ?W"
      using dims by simp_all
    show ?thesis
      by (rule grid_loop_fresh [where H = ?H and W = ?W and F = ?F and cell = cell and b = b
            and ?s0.0 = s and x = ?x and ?i0.0 = 0, OF cell b bw g0 w h]) simp_all
  qed
  have pr: "py_range (height (s ! b)) = map int [0..<?H]"
    by (simp add: py_range_def)
  let ?fresh = "\<lparr>width = width (s ! b), height = height (s ! b),
             grid = Some (replicate ?H (replicate ?W 0)), generation = 0\<rparr>"
  have hb: "\<And>y. (s @ [y]) ! b = s ! b"
    using b by (simp add: nth_append)
  have s2: "(s @ [?fresh])[length s := ((s @ [?fresh]) ! length s)\<lparr>generation :=
              generation (s ! b) + 1\<rparr>] = s @ [?x]"
    by simp
  have fin: "?x\<lparr>grid := Some (partial_grid ?F ?H ?W ?H 0)\<rparr> = next_board survive birth (s ! b)"
    by (simp add: next_board_def partial_grid_done)
  show ?thesis
    unfolding evolve_cells_def init
    by (simp only: prod.case sum.case Let_def s2 hb pr loop fin)
qed

lemma StandardRules_evolve_wf:
  assumes "b < length s" "wf_board (s ! b)"
  shows "StandardRules_evolve b s = (Inr (length s), s @ [next_board {2, 3} {3} (s ! b)])"
  unfolding StandardRules_evolve_def
proof (rule evolve_cells_wf [OF _ assms])
  fix i j and x :: board
  assume a: "i < nat (height (s ! b))" "j < nat (width (s ! b))"
    "grid x = Some (partial_grid (next_cells {2, 3} {3} (s ! b))
                       (nat (height (s ! b))) (nat (width (s ! b))) i j)"
    "width x = int (nat (width (s ! b)))" "height x = int (nat (height (s ! b)))"
  show "standard_cell b (length s) (int i) (int j) (s @ [x]) =
        (Inr (), s @ [x\<lparr>grid := Some (partial_grid (next_cells {2, 3} {3} (s ! b))
                       (nat (height (s ! b))) (nat (width (s ! b))) i (Suc j))\<rparr>])"
    by (rule standard_cell_fresh [OF assms a(3) a(4) a(5) a(1) a(2)])
qed

lemma HighLifeRules_evolve_wf:
  assumes "b < length s" "wf_board (s ! b)"
  shows "HighLifeRules_evolve b s = (Inr (length s), s @ [next_board {2, 3} {3, 6} (s ! b)])"
  unfolding HighLifeRules_evolve_def
proof (rule evolve_cells_wf [OF _ assms])
  fix i j and x :: board
  assume a: "i < nat (height (s ! b))" "j < nat (width (s ! b))"
    "grid x = Some (partial_grid (next_cells {2, 3} {3, 6} (s ! b))
                       (nat (height (s ! b))) (nat (width (s ! b))) i j)"
    "width x = int (nat (width (s ! b)))" "height x = int (nat (height (s ! b)))"
  show "highlife_cell b (length s) (int i) (int j) (s @ [x]) =
        (Inr (), s @ [x\<lparr>grid := Some (partial_grid (next_cells {2, 3} {3, 6} (s ! b))
                       (nat (height (s ! b))) (nat (width (s ! b))) i (Suc j))\<rparr>])"
    by (rule highlife_cell_fresh [OF assms a(3) a(4) a(5) a(1) a(2)])
qed

lemma DayAndNightRules_evolve_wf:
  assumes "b < length s" "wf_board (s ! b)"
  shows "DayAndNightRules_evolve b s =
         (Inr (length s), s @ [next_board {3, 4, 6, 7, 8} {3, 6, 7, 8} (s ! b)])"
  unfolding DayAndNightRules_evolve_def
proof (rule evolve_cells_wf [OF _ assms])
  fix i j and x :: board
  assume a: "i < nat (height (s ! b))" "j < nat (width (s ! b))"
    "grid x = Some (partial_grid (next_cells {3, 4, 6, 7, 8} {3, 6, 7, 8} (s ! b))
                       (nat (height (s ! b))) (nat (width (s ! b))) i j)"
    "width x = int (nat (width (s ! b)))" "height x = int (nat (height (s ! b)))"
  show "day_and_night_cell b (length s) (int i) (int j) (s @ [x]) =
        (Inr (), s @ [x\<lparr>grid := Some (partial_grid (next_cells {3, 4, 6, 7, 8} {3, 6, 7, 8} (s ! b))
                       (nat (height (s ! b))) (nat (width (s ! b))) i (Suc j))\<rparr>])"
    by (rule day_and_night_cell_fresh [OF assms a(3) a(4) a(5) a(1) a(2)])
qed

section \<open>The rules follow their tables\<close>

lemma wf_next_board: "wf_board b \<Longrightarrow> wf_board (next_board survive birth b)"
  by (auto simp: wf_board_def next_board_def next_cells_def rule_next_def split: option.splits)





lemma blinker_val: "blinker = [\<lparr>width = 3, height = 3, grid = Some [[0,0,0],[1,1,1],[0,0,0]], generation = 0\<rparr>]"
  by code_simp


section \<open>The rules do not touch their input\<close>

lemma set_cell_prefix: "n \<le> nb \<Longrightarrow> take n (snd (set_cell nb row col v s)) = take n s"
  by (auto simp: set_cell_def split: option.splits sum.splits)

lemma standard_cell_prefix:
  "n \<le> nb \<Longrightarrow> take n (snd (standard_cell b nb row col s)) = take n s"
  by (auto simp: standard_cell_def set_cell_prefix split: sum.splits)

lemma highlife_cell_prefix:
  "n \<le> nb \<Longrightarrow> take n (snd (highlife_cell b nb row col s)) = take n s"
  by (auto simp: highlife_cell_def set_cell_prefix split: sum.splits)

lemma day_and_night_cell_prefix:
  "n \<le> nb \<Longrightarrow> take n (snd (day_and_night_cell b nb row col s)) = take n s"
  by (auto simp: day_and_night_cell_def set_cell_prefix split: sum.splits)

lemma for_each_prefix:
  assumes "\<And>x s. take n (snd (body x s)) = take n s"
  shows "take n (snd (for_each xs body s)) = take n s"
proof (induction xs arbitrary: s)
  case Nil
  show ?case by simp
next
  case (Cons x xs)
  obtain r s' where b: "body x s = (r, s')" by (cases "body x s")
  with assms [of x s] have p: "take n s' = take n s" by simp
  show ?case
  proof (cases r)
    case (Inl e)
    with b p show ?thesis by simp
  next
    case (Inr u)
    with b p Cons.IH [of s'] show ?thesis by simp
  qed
qed

lemma evolve_cells_prefix:
  assumes cell: "\<And>nb row col s'. length s \<le> nb \<Longrightarrow>
      take (length s) (snd (cell b nb row col s')) = take (length s) s'"
  shows "take (length s) (snd (evolve_cells cell b s)) = s"
proof (cases "fst (Board_init (width (s ! b)) (height (s ! b)) s)")
  case (Inl e)
  then have "Board_init (width (s ! b)) (height (s ! b)) s = (Inl e, s)"
    by (auto simp: Board_init_def split: if_splits)
  then show ?thesis by (simp add: evolve_cells_def)
next
  case (Inr nb)
  then obtain x where i: "Board_init (width (s ! b)) (height (s ! b)) s = (Inr (length s), s @ [x])"
    by (auto simp: Board_init_def split: if_splits)
  let ?s2 = "(s @ [x])[length s := ((s @ [x]) ! length s)\<lparr>generation :=
               generation ((s @ [x]) ! b) + 1\<rparr>]"
  let ?out = "for_each (py_range (height (?s2 ! b)))
                (\<lambda>row s'. for_each (py_range (width (s' ! b)))
                             (\<lambda>col. cell b (length s) row col) s') ?s2"
  have "take (length s) (snd ?out) = take (length s) ?s2"
    by (intro for_each_prefix cell) simp
  then have p: "take (length s) (snd ?out) = s" by simp
  obtain r s3 where o: "?out = (r, s3)" by (cases ?out)
  with p have "take (length s) s3 = s" by simp
  with o show ?thesis
    unfolding evolve_cells_def i by (cases r) (simp_all add: Let_def)
qed

text \<open>
  C6. Whatever the store and the board are, and whether \<open>evolve\<close> returns or raises,
  every board that existed before the call is afterwards what it was: the old store is
  a prefix of the new one. In particular the input board keeps its cells, its
  dimensions and its generation.
\<close>

theorem evolve_input_unchanged:
  assumes "b < length s"
  shows "take (length s) (snd (StandardRules_evolve b s)) = s \<and>
         snd (StandardRules_evolve b s) ! b = s ! b \<and>
         take (length s) (snd (HighLifeRules_evolve b s)) = s \<and>
         snd (HighLifeRules_evolve b s) ! b = s ! b \<and>
         take (length s) (snd (DayAndNightRules_evolve b s)) = s \<and>
         snd (DayAndNightRules_evolve b s) ! b = s ! b"
proof -
  have 1: "take (length s) (snd (StandardRules_evolve b s)) = s"
    unfolding StandardRules_evolve_def by (rule evolve_cells_prefix) (rule standard_cell_prefix)
  have 2: "take (length s) (snd (HighLifeRules_evolve b s)) = s"
    unfolding HighLifeRules_evolve_def by (rule evolve_cells_prefix) (rule highlife_cell_prefix)
  have 3: "take (length s) (snd (DayAndNightRules_evolve b s)) = s"
    unfolding DayAndNightRules_evolve_def
    by (rule evolve_cells_prefix) (rule day_and_night_cell_prefix)
  have n: "\<And>s'. take (length s) s' = s \<Longrightarrow> s' ! b = s ! b"
    using assms by (metis nth_take)
  from 1 2 3 n [OF 1] n [OF 2] n [OF 3] show ?thesis by simp
qed

theorem evolve_input_unchanged_witness:
  "0 < length blinker \<and>
   snd (StandardRules_evolve 0 blinker) ! 0 = blinker ! 0 \<and>
   snd (HighLifeRules_evolve 0 blinker) ! 0 = blinker ! 0 \<and>
   snd (DayAndNightRules_evolve 0 blinker) ! 0 = blinker ! 0"
proof -
  have l: "0 < length blinker" by code_simp
  from l evolve_input_unchanged [OF l] show ?thesis by simp
qed

section \<open>The block is a still life\<close>

lemma block_cell_val:
  assumes "wf_board b" "is_block b r c"
  shows "cell_val b x y = (if (x = r \<or> x = r + 1) \<and> (y = c \<or> y = c + 1) then 1 else 0)"
proof (cases "0 \<le> x \<and> x < height b \<and> 0 \<le> y \<and> y < width b")
  case True
  then have "x \<in> set (py_range (height b))" "y \<in> set (py_range (width b))"
    by (auto simp: py_range_def image_iff intro: bexI [of _ "nat x"] bexI [of _ "nat y"])
  with assms(2) have "get_cell b x y =
      Inr (if (x = r \<or> x = r + 1) \<and> (y = c \<or> y = c + 1) then 1 else 0)"
    unfolding is_block_def by blast
  then show ?thesis by (simp add: get_cell_wf [OF assms(1)])
next
  case False
  moreover from assms(2) have "0 \<le> r" "r + 1 < height b" "0 \<le> c" "c + 1 < width b"
    by (simp_all add: is_block_def)
  ultimately show ?thesis by (auto simp: cell_val_def)
qed

lemma block_next_cells:
  assumes "wf_board b" "is_block b r c"
  shows "next_cells {2, 3} {3} b i j = cell_val b (int i) (int j)"
  unfolding next_cells_def rule_next_def nbr_count_def block_cell_val [OF assms]
  by auto

lemma next_board_same_grid:
  assumes wf: "wf_board b"
    and fx: "\<And>i j. i < nat (height b) \<Longrightarrow> j < nat (width b) \<Longrightarrow>
               next_cells survive birth b i j = cell_val b (int i) (int j)"
  shows "grid (next_board survive birth b) = grid b"
proof -
  from wf obtain g where g: "grid b = Some g" "int (length g) = height b"
    "\<forall>r \<in> set g. int (length r) = width b"
    by (cases "grid b") (auto simp: wf_board_def)
  have "map (\<lambda>r. map (\<lambda>c. next_cells survive birth b r c) [0..<nat (width b)])
          [0..<nat (height b)] = g"
  proof (rule nth_equalityI)
    show "length (map (\<lambda>r. map (\<lambda>c. next_cells survive birth b r c) [0..<nat (width b)])
                   [0..<nat (height b)]) = length g"
      using g by simp
  next
    fix i
    assume "i < length (map (\<lambda>r. map (\<lambda>c. next_cells survive birth b r c) [0..<nat (width b)])
                   [0..<nat (height b)])"
    then have i: "i < nat (height b)" by simp
    then have il: "i < length g" using g by simp
    then have wl: "length (g ! i) = nat (width b)" using g by (metis nat_int nth_mem)
    have "map (\<lambda>c. next_cells survive birth b i c) [0..<nat (width b)] = g ! i"
    proof (rule nth_equalityI)
      show "length (map (\<lambda>c. next_cells survive birth b i c) [0..<nat (width b)]) = length (g ! i)"
        using wl by simp
    next
      fix j
      assume "j < length (map (\<lambda>c. next_cells survive birth b i c) [0..<nat (width b)])"
      then have j: "j < nat (width b)" by simp
      from i j have "int i < height b" "int j < width b" by linarith+
      then have "cell_val b (int i) (int j) = g ! i ! j"
        using g by (simp add: cell_val_def)
      with fx [OF i j] j
      show "map (\<lambda>c. next_cells survive birth b i c) [0..<nat (width b)] ! j = g ! i ! j"
        by simp
    qed
    with i show "map (\<lambda>r. map (\<lambda>c. next_cells survive birth b r c) [0..<nat (width b)])
                   [0..<nat (height b)] ! i = g ! i"
      by simp
  qed
  with g show ?thesis by (simp add: next_board_def)
qed

lemma block_next_board:
  assumes "wf_board b" "is_block b r c"
  shows "grid (next_board {2, 3} {3} b) = grid b"
    and "is_block (next_board {2, 3} {3} b) r c"
proof -
  show g: "grid (next_board {2, 3} {3} b) = grid b"
    by (rule next_board_same_grid [OF assms(1)]) (rule block_next_cells [OF assms])
  have wh: "width (next_board {2, 3} {3} b) = width b" "height (next_board {2, 3} {3} b) = height b"
    by (simp_all add: next_board_def)
  have "\<And>row col. get_cell (next_board {2, 3} {3} b) row col = get_cell b row col"
    by (simp add: get_cell_def g wh split: option.splits)
  with assms(2) show "is_block (next_board {2, 3} {3} b) r c"
    by (simp add: is_block_def wh)
qed

text \<open>
  C7. A well-formed board whose live cells are exactly a 2 by 2 block is a fixed point
  of the standard rule: the board returned by \<open>evolve\<close> has the same grid, and so has
  the board returned by evolving that one again.
\<close>

theorem block_is_fixed_point:
  assumes "b < length s" and "wf_board (s ! b)" and "is_block (s ! b) r c"
  shows "block_still_life b s"
proof -
  let ?s1 = "s @ [next_board {2, 3} {3} (s ! b)]"
  have e1: "StandardRules_evolve b s = (Inr (length s), ?s1)"
    by (rule StandardRules_evolve_wf [OF assms(1,2)])
  have n: "?s1 ! length s = next_board {2, 3} {3} (s ! b)" by simp
  have w1: "wf_board (?s1 ! length s)"
    unfolding n by (rule wf_next_board [OF assms(2)])
  have e2: "StandardRules_evolve (length s) ?s1 =
            (Inr (length ?s1), ?s1 @ [next_board {2, 3} {3} (?s1 ! length s)])"
    by (rule StandardRules_evolve_wf [OF _ w1]) simp
  have g1: "grid (next_board {2, 3} {3} (s ! b)) = grid (s ! b)"
    by (rule block_next_board(1) [OF assms(2,3)])
  have g2: "grid (next_board {2, 3} {3} (next_board {2, 3} {3} (s ! b))) =
            grid (next_board {2, 3} {3} (s ! b))"
    by (rule block_next_board(1) [OF wf_next_board [OF assms(2)] block_next_board(2) [OF assms(2,3)]])
  have n2: "(?s1 @ [y]) ! length ?s1 = y" for y
    by (rule nth_append_length)
  show ?thesis
    unfolding block_still_life_def e1 prod.case sum.case e2 n n2
    using g1 g2 by simp
qed

theorem block_is_fixed_point_witness:
  "0 < length block4 \<and> wf_board (block4 ! 0) \<and> is_block (block4 ! 0) 1 1 \<and>
   grid (block4 ! 0) = Some [[0, 0, 0, 0], [0, 1, 1, 0], [0, 1, 1, 0], [0, 0, 0, 0]] \<and>
   block_still_life 0 block4"
proof -
  have l: "0 < length block4" by code_simp
  have w: "wf_board (block4 ! 0)" by code_simp
  have k: "is_block (block4 ! 0) 1 1" by code_simp
  have g: "grid (block4 ! 0) = Some [[0, 0, 0, 0], [0, 1, 1, 0], [0, 1, 1, 0], [0, 0, 0, 0]]"
    by code_simp
  from l w k g block_is_fixed_point [OF l w k] show ?thesis by blast
qed

section \<open>The generation ceiling\<close>

lemma set_cell_no_overflow: "fst (set_cell nb row col v s) \<noteq> Inl SimulationOverflowError"
  by (auto simp: set_cell_def list_get_def list_set_def py_index_def Let_def split: option.splits)

lemma get_cell_no_overflow: "get_cell b row col \<noteq> Inl SimulationOverflowError"
  by (auto simp: get_cell_def list_get_def py_index_def Let_def split: option.splits)

lemma fold_err_no_overflow:
  assumes "\<And>x acc. f x acc \<noteq> Inl SimulationOverflowError"
  shows "fold_err f xs acc \<noteq> Inl SimulationOverflowError"
proof (induction xs arbitrary: acc)
  case Nil
  show ?case by simp
next
  case (Cons x xs)
  with assms [of x acc] show ?case by (cases "f x acc") auto
qed

lemma neighbor_step_no_overflow:
  "neighbor_step b g row col dr dc count \<noteq> Inl SimulationOverflowError"
  by (auto simp: neighbor_step_def list_get_def py_index_def Let_def)

lemma count_neighbors_no_overflow: "count_neighbors b row col \<noteq> Inl SimulationOverflowError"
  unfolding count_neighbors_def
  by (cases "grid b")
     (simp_all add: fold_err_no_overflow neighbor_step_no_overflow del: fold_err.simps)

lemma count_alive_no_overflow: "count_alive b \<noteq> Inl SimulationOverflowError"
  by (simp add: count_alive_def split: option.splits)

lemma standard_cell_no_overflow:
  "fst (standard_cell b nb row col s) \<noteq> Inl SimulationOverflowError"
  using get_cell_no_overflow [of "s ! b" row col] count_neighbors_no_overflow [of "s ! b" row col]
  by (auto simp: standard_cell_def set_cell_no_overflow split: sum.splits)

lemma highlife_cell_no_overflow:
  "fst (highlife_cell b nb row col s) \<noteq> Inl SimulationOverflowError"
  using get_cell_no_overflow [of "s ! b" row col] count_neighbors_no_overflow [of "s ! b" row col]
  by (auto simp: highlife_cell_def set_cell_no_overflow split: sum.splits)

lemma day_and_night_cell_no_overflow:
  "fst (day_and_night_cell b nb row col s) \<noteq> Inl SimulationOverflowError"
  using get_cell_no_overflow [of "s ! b" row col] count_neighbors_no_overflow [of "s ! b" row col]
  by (auto simp: day_and_night_cell_def set_cell_no_overflow split: sum.splits)

lemma for_each_no_overflow:
  assumes "\<And>x s. fst (body x s) \<noteq> Inl SimulationOverflowError"
  shows "fst (for_each xs body s) \<noteq> Inl SimulationOverflowError"
proof (induction xs arbitrary: s)
  case Nil
  show ?case by simp
next
  case (Cons x xs)
  obtain r s' where b: "body x s = (r, s')" by (cases "body x s")
  with assms [of x s] have "r \<noteq> Inl SimulationOverflowError" by simp
  with b Cons.IH [of s'] show ?case by (cases r) auto
qed

lemma evolve_cells_no_overflow:
  assumes "\<And>nb row col s. fst (cell b nb row col s) \<noteq> Inl SimulationOverflowError"
  shows "fst (evolve_cells cell b s) \<noteq> Inl SimulationOverflowError"
proof (cases "Board_init (width (s ! b)) (height (s ! b)) s")
  case (Pair r0 s1)
  show ?thesis
  proof (cases r0)
    case (Inl e)
    with Pair have "e = InvalidDimensionError"
      by (auto simp: Board_init_def split: if_splits)
    with Pair Inl show ?thesis by (simp add: evolve_cells_def)
  next
    case (Inr nb)
    let ?s2 = "s1[nb := (s1 ! nb)\<lparr>generation := generation (s1 ! b) + 1\<rparr>]"
    let ?out = "for_each (py_range (height (?s2 ! b)))
                  (\<lambda>row s'. for_each (py_range (width (s' ! b)))
                               (\<lambda>col. cell b nb row col) s') ?s2"
    have n: "fst ?out \<noteq> Inl SimulationOverflowError"
      by (intro for_each_no_overflow assms)
    obtain r s3 where o: "?out = (r, s3)" by (cases ?out)
    with n have "r \<noteq> Inl SimulationOverflowError" by simp
    with o Pair Inr show ?thesis
      by (cases r) (simp_all add: evolve_cells_def Let_def)
  qed
qed

lemma builtin_rule_no_overflow:
  "builtin_rule rc \<Longrightarrow> fst (rc b s) \<noteq> Inl SimulationOverflowError"
  unfolding builtin_rule_def StandardRules_evolve_def HighLifeRules_evolve_def
    DayAndNightRules_evolve_def
  using evolve_cells_no_overflow [of standard_cell b s, OF standard_cell_no_overflow]
    evolve_cells_no_overflow [of highlife_cell b s, OF highlife_cell_no_overflow]
    evolve_cells_no_overflow [of day_and_night_cell b s, OF day_and_night_cell_no_overflow]
  by auto

lemma copy_no_overflow: "fst (copy b s) \<noteq> Inl SimulationOverflowError"
  by (auto simp: copy_def Board_init_def split: option.splits)

lemma step_no_overflow:
  "builtin_rule (rule_class self) \<Longrightarrow> fst (step self s) \<noteq> Inl SimulationOverflowError"
  using builtin_rule_no_overflow [of "rule_class self" "board self" s]
  by (auto simp: step_def split: prod.splits sum.splits)

lemma step_rule_class: "rule_class (fst (snd (step self s))) = rule_class self"
  by (auto simp: step_def split: prod.splits sum.splits)

lemma run_loop_no_overflow:
  "builtin_rule (rule_class self) \<Longrightarrow>
   fst (run_loop gens None save_history self s) \<noteq> Inl SimulationOverflowError"
proof (induction gens arbitrary: self s)
  case Nil
  show ?case by simp
next
  case (Cons gen gens)
  obtain r self1 s1 where st: "step self s = (r, self1, s1)" by (cases "step self s")
  with step_no_overflow [OF Cons.prems, of s] have r: "r \<noteq> Inl SimulationOverflowError" by simp
  from st step_rule_class [of self s] Cons.prems have b1: "builtin_rule (rule_class self1)" by simp
  show ?case
  proof (cases r)
    case (Inl e)
    with st r show ?thesis by simp
  next
    case (Inr nb)
    show ?thesis
    proof (cases save_history)
      case False
      with st Inr Cons.IH [OF b1] count_alive_no_overflow [of "s1 ! board self1"]
      show ?thesis by (auto split: sum.splits)
    next
      case True
      obtain rc s3 where c: "copy (board self1) s1 = (rc, s3)" by (cases "copy (board self1) s1")
      with copy_no_overflow [of "board self1" s1] have rc: "rc \<noteq> Inl SimulationOverflowError"
        by simp
      have b3: "builtin_rule (rule_class (self1\<lparr>history := history self1 @ [h]\<rparr>))" for h
        using b1 by simp
      from True st Inr c rc Cons.IH [OF b3] count_alive_no_overflow [of "s3 ! board self1"]
      show ?thesis by (cases rc) (auto split: sum.splits)
    qed
  qed
qed

lemma Simulator_init_builtin:
  assumes "Simulator_init b name builtin_rules = Inr self"
  shows "board self = b" "max_generations self = 10000" "history self = []"
    "builtin_rule (rule_class self)"
  using assms
  by (auto simp: Simulator_init_def get_rule_def builtin_rules_def register_def builtin_rule_def
      split: option.splits if_splits)

text \<open>
  C8. For a simulator made by the constructor with one of the three built-in rules,
  and without a callback, \<open>run\<close> raises \<open>SimulationOverflowError\<close> exactly when more
  than 10000 generations are asked for, on every store and with or without history:
  10001 raises it, 10000 does not.
\<close>

theorem run_overflow_iff:
  assumes "Simulator_init b name builtin_rules = Inr self"
  shows "(fst (run generations None save_history self s) = Inl SimulationOverflowError)
           = (generations > 10000) \<and>
         fst (run 10001 None save_history self s) = Inl SimulationOverflowError \<and>
         fst (run 10000 None save_history self s) \<noteq> Inl SimulationOverflowError"
proof -
  note i = Simulator_init_builtin [OF assms]
  have le: "fst (run n None save_history self s) \<noteq> Inl SimulationOverflowError"
    if "n \<le> 10000" for n
  proof (cases save_history)
    case False
    with that i(2) run_loop_no_overflow [OF i(4), of "py_range n" False s]
    show ?thesis by (auto simp: run_def split: prod.splits sum.splits)
  next
    case True
    obtain rc s1 where c: "copy (board self) s = (rc, s1)" by (cases "copy (board self) s")
    with copy_no_overflow [of "board self" s] have rc: "rc \<noteq> Inl SimulationOverflowError"
      by simp
    show ?thesis
    proof (cases rc)
      case (Inl e)
      with True that i(2) c rc show ?thesis by (simp add: run_def)
    next
      case (Inr h)
      have "builtin_rule (rule_class (self\<lparr>history := [h]\<rparr>))"
        using i(4) by simp
      from run_loop_no_overflow [OF this, of "py_range n" True s1] True that i(2) c Inr
      show ?thesis by (auto simp: run_def split: prod.splits sum.splits)
    qed
  qed
  have gt: "fst (run n None save_history self s) = Inl SimulationOverflowError"
    if "n > 10000" for n
    using that i(2) by (simp add: run_def)
  from le [of generations] gt [of generations] le [of 10000] gt [of 10001]
  show ?thesis by (cases "generations > 10000") auto
qed

theorem run_overflow_iff_witness:
  "Simulator_init 0 ''standard'' builtin_rules =
     Inr \<lparr>board = 0, rule_class = StandardRules_evolve, rule_name = ''standard'',
          history = [], max_generations = 10000\<rparr> \<and>
   fst (run 10001 None False
          \<lparr>board = 0, rule_class = StandardRules_evolve, rule_name = ''standard'',
           history = [], max_generations = 10000\<rparr> blinker) = Inl SimulationOverflowError \<and>
   fst (run 10000 None False
          \<lparr>board = 0, rule_class = StandardRules_evolve, rule_name = ''standard'',
           history = [], max_generations = 10000\<rparr> blinker) \<noteq> Inl SimulationOverflowError"
proof -
  have h: "Simulator_init 0 ''standard'' builtin_rules =
     Inr \<lparr>board = 0, rule_class = StandardRules_evolve, rule_name = ''standard'',
          history = [], max_generations = 10000\<rparr>"
    by (simp add: Simulator_init_def get_rule_def builtin_rules_def register_def)
  from h run_overflow_iff [OF h, of 0 False blinker] show ?thesis by blast
qed

section \<open>Running a number of generations\<close>

lemma builtin_rule_wf:
  assumes "builtin_rule rc" "b < length s" "wf_board (s ! b)"
  shows "\<exists>nb. rc b s = (Inr (length s), s @ [nb]) \<and> wf_board nb \<and>
              generation nb = generation (s ! b) + 1"
proof -
  have "wf_board (next_board survive birth (s ! b)) \<and>
        generation (next_board survive birth (s ! b)) = generation (s ! b) + 1" for survive birth
    using wf_next_board [OF assms(3)] by (simp add: next_board_def)
  with assms(1) StandardRules_evolve_wf [OF assms(2,3)] HighLifeRules_evolve_wf [OF assms(2,3)]
    DayAndNightRules_evolve_wf [OF assms(2,3)]
  show ?thesis unfolding builtin_rule_def by metis
qed

lemma step_wf:
  assumes "builtin_rule (rule_class self)" "board self < length s" "wf_board (s ! board self)"
  shows "\<exists>nb. step self s = (Inr (length s), self\<lparr>board := length s\<rparr>, s @ [nb]) \<and>
              wf_board nb \<and> generation nb = generation (s ! board self) + 1"
  using builtin_rule_wf [OF assms] by (auto simp: step_def)

lemma count_alive_wf: "wf_board b \<Longrightarrow> \<exists>a. count_alive b = Inr a"
  by (cases "grid b") (auto simp: wf_board_def count_alive_def)

lemma run_loop_wf:
  assumes "builtin_rule (rule_class self)" "board self < length s" "wf_board (s ! board self)"
  shows "\<exists>k self' s'. k \<le> length gens \<and>
           run_loop gens None False self s = (Inr (), self', s') \<and>
           step_n k self s = (Inr (), self', s') \<and>
           generation (s' ! board self') = generation (s ! board self) + int k \<and>
           (k = length gens \<or> (0 < k \<and> count_alive (s' ! board self') = Inr 0)) \<and>
           (\<forall>j \<in> {1..<k}. alive_after j self s \<noteq> Inr 0)"
  using assms
proof (induction gens arbitrary: self s)
  case Nil
  show ?case by (intro exI [of _ 0]) simp
next
  case (Cons gen gens)
  from step_wf [OF Cons.prems] obtain nb where
    st: "step self s = (Inr (length s), self\<lparr>board := length s\<rparr>, s @ [nb])"
    and nb: "wf_board nb" "generation nb = generation (s ! board self) + 1"
    by blast
  let ?self1 = "self\<lparr>board := length s\<rparr>" and ?s1 = "s @ [nb]"
  have b1: "?s1 ! board ?self1 = nb" by simp
  from count_alive_wf [OF nb(1)] obtain a where a: "count_alive nb = Inr a" by blast
  have one: "alive_after (Suc j) self s = alive_after j ?self1 ?s1" for j
    by (simp add: alive_after_def st)
  show ?case
  proof (cases "a = 0")
    case True
    have "run_loop (gen # gens) None False self s = (Inr (), ?self1, ?s1)"
      using st a True by simp
    moreover have "step_n 1 self s = (Inr (), ?self1, ?s1)"
      using st by simp
    ultimately show ?thesis
      using nb a True by (intro exI [of _ 1] exI [of _ ?self1] exI [of _ ?s1]) simp
  next
    case False
    have p: "builtin_rule (rule_class ?self1)" "board ?self1 < length ?s1"
      "wf_board (?s1 ! board ?self1)"
      using Cons.prems(1) nb(1) by simp_all
    from Cons.IH [OF p] obtain k self' s' where k: "k \<le> length gens"
      "run_loop gens None False ?self1 ?s1 = (Inr (), self', s')"
      "step_n k ?self1 ?s1 = (Inr (), self', s')"
      "generation (s' ! board self') = generation (?s1 ! board ?self1) + int k"
      "k = length gens \<or> (0 < k \<and> count_alive (s' ! board self') = Inr 0)"
      "\<forall>j \<in> {1..<k}. alive_after j ?self1 ?s1 \<noteq> Inr 0"
      by blast
    have r: "run_loop (gen # gens) None False self s = (Inr (), self', s')"
      using st a False k(2) by simp
    have sn: "step_n (Suc k) self s = (Inr (), self', s')"
      using st k(3) by simp
    have g: "generation (s' ! board self') = generation (s ! board self) + int (Suc k)"
      using k(4) nb(2) by simp
    have first: "alive_after 1 self s \<noteq> Inr 0"
      using one [of 0] a False by (simp add: alive_after_def)
    have nz: "\<forall>j \<in> {1..<Suc k}. alive_after j self s \<noteq> Inr 0"
    proof
      fix j
      assume j: "j \<in> {1..<Suc k}"
      show "alive_after j self s \<noteq> Inr 0"
      proof (cases "j = 1")
        case True
        with first show ?thesis by simp
      next
        case False
        with j obtain j' where j': "j = Suc j'" "j' \<in> {1..<k}"
          by (cases j) auto
        with k(6) one [of j'] show ?thesis by simp
      qed
    qed
    from k(1) k(5) r sn g nz show ?thesis
      by (intro exI [of _ "Suc k"] exI [of _ self'] exI [of _ s']) auto
  qed
qed

text \<open>
  C5, for a number of generations that is not negative. For a simulator made by the
  constructor with a built-in rule on a well-formed board, \<open>run(generations)\<close> with
  \<open>0 \<le> generations \<le> 10000\<close>, no callback and no history returns without raising.
  The board it returns is the board after \<open>k\<close> steps and its generation is the initial
  one plus \<open>k\<close>, where \<open>k = generations\<close> unless at least one step was taken and that
  board has no alive cell; no earlier board of the run had none, so the loop ends at
  the first extinction.
\<close>

theorem run_generation_count:
  assumes "Simulator_init b name builtin_rules = Inr self"
    and "b < length s" and "wf_board (s ! b)"
    and "0 \<le> generations" and "generations \<le> 10000"
  shows "runs_to_extinction_or_end generations self s (run generations None False self s)"
proof -
  note i = Simulator_init_builtin [OF assms(1)]
  from run_loop_wf [of self s "py_range generations"] i assms(2,3)
  obtain k self' s' where k: "k \<le> length (py_range generations)"
    "run_loop (py_range generations) None False self s = (Inr (), self', s')"
    "step_n k self s = (Inr (), self', s')"
    "generation (s' ! board self') = generation (s ! board self) + int k"
    "k = length (py_range generations) \<or> (0 < k \<and> count_alive (s' ! board self') = Inr 0)"
    "\<forall>j \<in> {1..<k}. alive_after j self s \<noteq> Inr 0"
    by blast
  have l: "length (py_range generations) = nat generations" by (simp add: py_range_def)
  have r: "run generations None False self s = (Inr (board self'), self', s')"
    using assms(5) i(2) k(2) by (simp add: run_def)
  have "k \<in> {0..nat generations}" using k(1) l by simp
  moreover have "int k = generations \<or> (0 < k \<and> count_alive (s' ! board self') = Inr 0)"
    using k(5) l assms(4) by auto
  ultimately show ?thesis
    unfolding runs_to_extinction_or_end_def r using k(3,4,6) by auto
qed

theorem run_generation_count_witness:
  "Simulator_init 0 ''standard'' builtin_rules =
     Inr \<lparr>board = 0, rule_class = StandardRules_evolve, rule_name = ''standard'',
          history = [], max_generations = 10000\<rparr> \<and>
   0 < length blinker \<and> wf_board (blinker ! 0) \<and>
   runs_to_extinction_or_end 2
     \<lparr>board = 0, rule_class = StandardRules_evolve, rule_name = ''standard'',
      history = [], max_generations = 10000\<rparr> blinker
     (run 2 None False
        \<lparr>board = 0, rule_class = StandardRules_evolve, rule_name = ''standard'',
         history = [], max_generations = 10000\<rparr> blinker) \<and>
   0 < length lonely \<and> wf_board (lonely ! 0) \<and>
   runs_to_extinction_or_end 5
     \<lparr>board = 0, rule_class = StandardRules_evolve, rule_name = ''standard'',
      history = [], max_generations = 10000\<rparr> lonely
     (run 5 None False
        \<lparr>board = 0, rule_class = StandardRules_evolve, rule_name = ''standard'',
         history = [], max_generations = 10000\<rparr> lonely)"
proof -
  have h: "Simulator_init 0 ''standard'' builtin_rules =
     Inr \<lparr>board = 0, rule_class = StandardRules_evolve, rule_name = ''standard'',
          history = [], max_generations = 10000\<rparr>"
    by (simp add: Simulator_init_def get_rule_def builtin_rules_def register_def)
  have l: "0 < length blinker" by code_simp
  have w: "wf_board (blinker ! 0)" by code_simp
  have l': "0 < length lonely" by code_simp
  have w': "wf_board (lonely ! 0)" by code_simp
  from h l w l' w' run_generation_count [OF h l w, of 2] run_generation_count [OF h l' w', of 5]
  show ?thesis by simp
qed

lemma run_examples:
  "generation (snd (snd (run 2 None False
      \<lparr>board = 0, rule_class = StandardRules_evolve, rule_name = ''standard'',
       history = [], max_generations = 10000\<rparr> blinker)) ! 2) = 2"
  "fst (run 5 None False
      \<lparr>board = 0, rule_class = StandardRules_evolve, rule_name = ''standard'',
       history = [], max_generations = 10000\<rparr> lonely) = Inr 1"
  "generation (snd (snd (run 5 None False
      \<lparr>board = 0, rule_class = StandardRules_evolve, rule_name = ''standard'',
       history = [], max_generations = 10000\<rparr> lonely)) ! 1) = 1"
  by code_simp+

text \<open>
  C5 as stated, for every \<open>N\<close> up to the ceiling, fails below zero: \<open>run(-1)\<close> passes the
  ceiling test, \<open>range(-1)\<close> is empty, and the board comes back as it was, three cells
  alive and its generation still 0, which is not \<open>0 + (-1)\<close>.
\<close>

theorem run_generation_count_counterexample:
  "run (- 1) None False (standard_simulator 0) blinker =
     (Inr 0, standard_simulator 0, blinker) \<and>
   generation (blinker ! 0) = 0 \<and>
   generation (blinker ! 0) \<noteq> 0 + (- 1) \<and>
   count_alive (blinker ! 0) = Inr 3 \<and>
   \<not> runs_to_extinction_or_end (- 1) (standard_simulator 0) blinker
       (run (- 1) None False (standard_simulator 0) blinker)"
proof -
  have r: "run (- 1) None False (standard_simulator 0) blinker =
           (Inr 0, standard_simulator 0, blinker)"
    by (simp add: run_def standard_simulator_def py_range_def)
  have g: "generation (blinker ! 0) = 0" by code_simp
  have a: "count_alive (blinker ! 0) = Inr 3" by code_simp
  have n: "\<not> runs_to_extinction_or_end (- 1) (standard_simulator 0) blinker
             (run (- 1) None False (standard_simulator 0) blinker)"
    unfolding r by (simp add: runs_to_extinction_or_end_def)
  from r g a n show ?thesis by simp
qed

section \<open>Saving a board and parsing it back\<close>

lemma cell_char_facts:
  "\<not> py_isspace (cell_char v)" "cell_char v \<noteq> newline" "cell_char v \<noteq> CHR ''#''"
  "cell_char v \<in> {CHR ''O'', CHR ''*'', CHR ''1''} \<longleftrightarrow> v \<noteq> 0"
  by (simp_all add: cell_char_def py_isspace_def newline_def)

lemma digit_not_newline: "(n::nat) < 10 \<Longrightarrow> char_of (48 + n) \<noteq> newline"
proof
  assume n: "n < 10" and "char_of (48 + n) = newline"
  then have "of_char (char_of (48 + n) :: char) = (of_char newline :: nat)" by simp
  then have "(48 + n) mod 256 = 10" by (simp add: newline_def)
  with n show False by simp
qed

lemma str_nat_no_newline: "newline \<notin> set (str_nat n)"
proof (induction n rule: str_nat.induct)
  case (1 n)
  show ?case
  proof (cases "n < 10")
    case True
    then show ?thesis
      using digit_not_newline [of n] by (subst str_nat.simps) auto
  next
    case False
    have "n mod 10 < 10" by simp
    from digit_not_newline [OF this] False 1 show ?thesis
      by (subst str_nat.simps) auto
  qed
qed

lemma str_int_no_newline: "newline \<notin> set (str_int i)"
  using str_nat_no_newline by (auto simp: str_int_def newline_def)

lemma split_on_line:
  "c \<notin> set l \<Longrightarrow> split_on c (l @ c # rest) = l # split_on c rest"
  by (induction l) auto

lemma split_on_rows:
  "split_on newline (concat (map (\<lambda>row. map cell_char row @ [newline]) g)) =
   map (map cell_char) g @ [[]]"
proof (induction g)
  case Nil
  show ?case by simp
next
  case (Cons row g)
  have "newline \<notin> set (map cell_char row)"
    by (induction row) (simp_all add: cell_char_facts(2) [symmetric])
  from split_on_line [OF this] Cons show ?case by simp
qed

lemma rstrip_no_space: "\<forall>c \<in> set l. \<not> py_isspace c \<Longrightarrow> rstrip l = l"
proof -
  assume a: "\<forall>c \<in> set l. \<not> py_isspace c"
  have "dropWhile py_isspace (rev l) = rev l"
  proof (cases "rev l")
    case Nil
    then show ?thesis by simp
  next
    case (Cons x xs)
    then have "x \<in> set l" by (metis list.set_intros(1) set_rev)
    with a Cons show ?thesis by simp
  qed
  then show ?thesis by (simp add: rstrip_def)
qed

lemma rstrip_hd:
  assumes "\<not> py_isspace x"
  shows "\<exists>ys. rstrip (x # xs) = x # ys"
proof -
  have "\<exists>zs. dropWhile py_isspace (ws @ [x]) = zs @ [x]" for ws
    using assms by (induction ws) auto
  then obtain zs where "dropWhile py_isspace (rev xs @ [x]) = zs @ [x]" by blast
  then show ?thesis by (simp add: rstrip_def)
qed

lemma comment_line:
  assumes "newline \<noteq> CHR ''#''"
  shows "startswith (rstrip (CHR ''#'' # xs)) ''#''"
proof -
  have "\<not> py_isspace CHR ''#''" by (simp add: py_isspace_def)
  from rstrip_hd [OF this, of xs] show ?thesis by (auto simp: startswith_def)
qed

lemma plaintext_comment:
  "\<exists>p'. plaintext_lines row ((CHR ''#'' # xs) # ls) p = plaintext_lines (row + 1) ls p' \<and>
        cells p' = cells p"
proof -
  have c: "startswith (rstrip (CHR ''#'' # xs)) ''#''"
    by (rule comment_line) (simp add: newline_def)
  show ?thesis
  proof (cases "startswith (strip (drop 1 (rstrip (CHR ''#'' # xs)))) ''N ''")
    case True
    with c show ?thesis
      by (intro exI [of _ "p\<lparr>pattern_name := strip (drop 2 (strip (drop 1 (rstrip (CHR ''#'' # xs)))))\<rparr>"])
         (simp add: Let_def)
  next
    case False
    with c show ?thesis
      by (intro exI [of _ "p\<lparr>pattern_comments := pattern_comments p @ [strip (drop 1 (rstrip (CHR ''#'' # xs)))]\<rparr>"])
         (simp add: Let_def)
  qed
qed

lemma row_not_comment: "\<not> startswith (map cell_char row) ''#''"
  by (cases row) (simp_all add: startswith_def cell_char_facts(3))

lemma rstrip_row: "rstrip (map cell_char row) = map cell_char row"
  by (rule rstrip_no_space) (simp add: cell_char_facts(1))

lemma plaintext_rows:
  "cells (plaintext_lines r (map (map cell_char) g @ [[]]) p) = cells p @ grid_cells r g"
proof (induction g arbitrary: r p)
  case Nil
  show ?case by (simp add: rstrip_def startswith_def)
next
  case (Cons row g)
  show ?case
    by (simp add: rstrip_row row_not_comment Cons.IH)
qed

lemma line_cells_set:
  "set (line_cells r c (map cell_char vals)) =
   {(r, c + int j) | j. j < length vals \<and> vals ! j \<noteq> 0}"
proof (induction vals arbitrary: c)
  case Nil
  show ?case by simp
next
  case (Cons v vs)
  have split: "{(r, c + int j) | j. j < length (v # vs) \<and> (v # vs) ! j \<noteq> 0} =
        (if v \<noteq> 0 then {(r, c)} else {}) \<union>
        {(r, c + 1 + int j) | j. j < length vs \<and> vs ! j \<noteq> 0}"
  proof (rule set_eqI, rule iffI)
    fix x
    assume "x \<in> {(r, c + int j) | j. j < length (v # vs) \<and> (v # vs) ! j \<noteq> 0}"
    then obtain j where j: "x = (r, c + int j)" "j < length (v # vs)" "(v # vs) ! j \<noteq> 0"
      by blast
    show "x \<in> (if v \<noteq> 0 then {(r, c)} else {}) \<union>
               {(r, c + 1 + int j) | j. j < length vs \<and> vs ! j \<noteq> 0}"
    proof (cases j)
      case 0
      with j show ?thesis by simp
    next
      case (Suc j')
      with j have "x = (r, c + 1 + int j')" "j' < length vs" "vs ! j' \<noteq> 0" by simp_all
      then show ?thesis by blast
    qed
  next
    fix x
    assume "x \<in> (if v \<noteq> 0 then {(r, c)} else {}) \<union>
               {(r, c + 1 + int j) | j. j < length vs \<and> vs ! j \<noteq> 0}"
    then consider "v \<noteq> 0" "x = (r, c)"
      | j where "x = (r, c + 1 + int j)" "j < length vs" "vs ! j \<noteq> 0"
      by (auto split: if_splits)
    then show "x \<in> {(r, c + int j) | j. j < length (v # vs) \<and> (v # vs) ! j \<noteq> 0}"
    proof cases
      case 1
      then have "x = (r, c + int 0)" "0 < length (v # vs)" "(v # vs) ! 0 \<noteq> 0" by simp_all
      then show ?thesis by blast
    next
      case 2
      then have "x = (r, c + int (Suc j))" "Suc j < length (v # vs)" "(v # vs) ! Suc j \<noteq> 0"
        by simp_all
      then show ?thesis by blast
    qed
  qed
  show ?case
    unfolding split using Cons.IH [of "c + 1"] by (cases "v = 0") (simp_all add: cell_char_def)
qed

lemma grid_cells_set:
  "set (grid_cells r g) =
   {(r + int i, int j) | i j. i < length g \<and> j < length (g ! i) \<and> g ! i ! j \<noteq> 0}"
proof (induction g arbitrary: r)
  case Nil
  show ?case by simp
next
  case (Cons row g)
  have split: "{(r + int i, int j) | i j. i < length (row # g) \<and> j < length ((row # g) ! i) \<and>
                   (row # g) ! i ! j \<noteq> 0} =
        {(r, 0 + int j) | j. j < length row \<and> row ! j \<noteq> 0} \<union>
        {(r + 1 + int i, int j) | i j. i < length g \<and> j < length (g ! i) \<and> g ! i ! j \<noteq> 0}"
  proof (rule set_eqI, rule iffI)
    fix x
    assume "x \<in> {(r + int i, int j) | i j. i < length (row # g) \<and>
                    j < length ((row # g) ! i) \<and> (row # g) ! i ! j \<noteq> 0}"
    then obtain i j where ij: "x = (r + int i, int j)" "i < length (row # g)"
      "j < length ((row # g) ! i)" "(row # g) ! i ! j \<noteq> 0"
      by blast
    show "x \<in> {(r, 0 + int j) | j. j < length row \<and> row ! j \<noteq> 0} \<union>
        {(r + 1 + int i, int j) | i j. i < length g \<and> j < length (g ! i) \<and> g ! i ! j \<noteq> 0}"
    proof (cases i)
      case 0
      with ij have "x = (r, 0 + int j)" "j < length row" "row ! j \<noteq> 0" by simp_all
      then show ?thesis by blast
    next
      case (Suc i')
      with ij have "x = (r + 1 + int i', int j)" "i' < length g" "j < length (g ! i')"
        "g ! i' ! j \<noteq> 0" by simp_all
      then show ?thesis by blast
    qed
  next
    fix x
    assume "x \<in> {(r, 0 + int j) | j. j < length row \<and> row ! j \<noteq> 0} \<union>
        {(r + 1 + int i, int j) | i j. i < length g \<and> j < length (g ! i) \<and> g ! i ! j \<noteq> 0}"
    then consider j where "x = (r, 0 + int j)" "j < length row" "row ! j \<noteq> 0"
      | i j where "x = (r + 1 + int i, int j)" "i < length g" "j < length (g ! i)"
          "g ! i ! j \<noteq> 0"
      by blast
    then show "x \<in> {(r + int i, int j) | i j. i < length (row # g) \<and>
                    j < length ((row # g) ! i) \<and> (row # g) ! i ! j \<noteq> 0}"
    proof cases
      case 1
      then have "x = (r + int 0, int j)" "0 < length (row # g)" "j < length ((row # g) ! 0)"
        "(row # g) ! 0 ! j \<noteq> 0" by simp_all
      then show ?thesis by blast
    next
      case 2
      then have "x = (r + int (Suc i), int j)" "Suc i < length (row # g)"
        "j < length ((row # g) ! Suc i)" "(row # g) ! Suc i ! j \<noteq> 0" by simp_all
      then show ?thesis by blast
    qed
  qed
  show ?case
    unfolding split using Cons.IH [of "r + 1"] by (simp add: line_cells_set)
qed

lemma parse_saved_lines:
  assumes "newline \<notin> set l1" "newline \<notin> set l2"
  shows "cells (plaintext_lines 0
           (split_on newline ((CHR ''#'' # l1) @ [newline] @ (CHR ''#'' # l2) @ [newline] @ ''#'' @ [newline]
              @ concat (map (\<lambda>row. map cell_char row @ [newline]) g))) p) =
         cells p @ grid_cells 3 g"
proof -
  have n: "newline \<noteq> CHR ''#''" by (simp add: newline_def)
  have s: "split_on newline ((CHR ''#'' # l1) @ [newline] @ (CHR ''#'' # l2) @ [newline] @ ''#'' @ [newline]
              @ concat (map (\<lambda>row. map cell_char row @ [newline]) g)) =
        (CHR ''#'' # l1) # (CHR ''#'' # l2) # ''#'' # (map (map cell_char) g @ [[]])"
    using assms n split_on_line [of newline "CHR ''#'' # l1"] split_on_line [of newline "CHR ''#'' # l2"]
      split_on_line [of newline "''#''"]
    by (simp add: split_on_rows)
  obtain p1 where p1: "plaintext_lines 0 ((CHR ''#'' # l1) # (CHR ''#'' # l2) # ''#'' #
        (map (map cell_char) g @ [[]])) p =
      plaintext_lines (0 + 1) ((CHR ''#'' # l2) # ''#'' # (map (map cell_char) g @ [[]])) p1"
    "cells p1 = cells p"
    using plaintext_comment by blast
  obtain p2 where p2: "plaintext_lines (0 + 1) ((CHR ''#'' # l2) # ''#'' #
        (map (map cell_char) g @ [[]])) p1 =
      plaintext_lines (0 + 1 + 1) (''#'' # (map (map cell_char) g @ [[]])) p2"
    "cells p2 = cells p1"
    using plaintext_comment by blast
  obtain p3 where p3: "plaintext_lines (0 + 1 + 1) (''#'' # (map (map cell_char) g @ [[]])) p2 =
      plaintext_lines (0 + 1 + 1 + 1) (map (map cell_char) g @ [[]]) p3"
    "cells p3 = cells p2"
    using plaintext_comment [of "0 + 1 + 1" "[]"] by blast
  show ?thesis
    unfolding s p1(1) p2(1) p3(1) plaintext_rows using p1(2) p2(2) p3(2) by simp
qed

lemma live_cells_set:
  assumes "wf_board b" "grid b = Some g"
  shows "set (live_cells b) =
         {(int i, int j) | i j. i < length g \<and> j < length (g ! i) \<and> g ! i ! j \<noteq> 0}"
proof -
  from assms have g: "int (length g) = height b"
    "\<forall>r \<in> set g. int (length r) = width b \<and> (\<forall>c \<in> set r. c = 0 \<or> c = 1)"
    by (auto simp: wf_board_def)
  have rl: "length (g ! i) = nat (width b)" if "i < length g" for i
    using g(2) that by (metis nat_int nth_mem)
  have v: "get_cell b (int i) (int j) = Inr (g ! i ! j)"
    if "i < length g" "j < nat (width b)" for i j
  proof -
    from that g(1) have "int i < height b" "int j < width b" by linarith+
    then show ?thesis
      using assms(2) by (simp add: get_cell_wf [OF assms(1)] cell_val_def)
  qed
  have b01: "g ! i ! j = 0 \<or> g ! i ! j = 1" if "i < length g" "j < nat (width b)" for i j
    using g(2) that rl [OF that(1)] by (metis nth_mem)
  have l: "nat (height b) = length g" using g(1) by simp
  show ?thesis
  proof (rule set_eqI, rule iffI)
    fix x
    assume "x \<in> set (live_cells b)"
    then obtain i j where "x = (int i, int j)" "i < length g" "j < nat (width b)"
      "get_cell b (int i) (int j) = Inr 1"
      by (auto simp: live_cells_def py_range_def l)
    with v [of i j] rl [of i]
    show "x \<in> {(int i, int j) | i j. i < length g \<and> j < length (g ! i) \<and> g ! i ! j \<noteq> 0}"
      by auto
  next
    fix x
    assume "x \<in> {(int i, int j) | i j. i < length g \<and> j < length (g ! i) \<and> g ! i ! j \<noteq> 0}"
    then obtain i j where ij: "x = (int i, int j)" "i < length g" "j < length (g ! i)"
      "g ! i ! j \<noteq> 0"
      by blast
    then have j: "j < nat (width b)" using rl [of i] by simp
    with ij b01 [of i j] v [of i j] have "get_cell b (int i) (int j) = Inr 1" by auto
    with ij j show "x \<in> set (live_cells b)"
      by (auto simp: live_cells_def py_range_def l)
  qed
qed

lemma save_pattern_default:
  assumes "grid b = Some g"
  shows "save_pattern b None None =
         Inr ((CHR ''#'' # '' Generation: '' @ str_int (generation b)) @ [newline] @
              (CHR ''#'' # '' Alive cells: '' @ str_int (sum_list (map sum_list g))) @ [newline] @
              ''#'' @ [newline] @
              concat (map (\<lambda>row. map cell_char row @ [newline]) g))"
proof -
  have "(\<lambda>cell. if cell \<noteq> 0 then CHR ''O'' else CHR ''.'') = cell_char"
    by (simp add: cell_char_def fun_eq_iff)
  then show ?thesis
    using assms by (simp add: save_pattern_def count_alive_def)
qed

text \<open>
  What the round trip does on every board. For every well-formed board saved with the
  default arguments (no name, no comments), parsing the written text through
  \<open>_parse_plaintext\<close> fails with \<open>PatternParseError\<close> if the board has no live cell;
  otherwise it succeeds, and the parsed cells are the live cells of the board with
  their columns, each row increased by 3, the number of comment lines that
  \<open>save_pattern\<close> writes before the grid. No board with a live cell comes back with
  its own coordinates.
\<close>

lemma save_then_parse_plaintext:
  assumes "wf_board b"
  shows "reparsed_rows_moved 3 b filename"
proof -
  from assms obtain g where g: "grid b = Some g"
    by (cases "grid b") (auto simp: wf_board_def)
  let ?p0 = "\<lparr>pattern_name = filename, cells = [], pattern_comments = [],
              pattern_format = ''plaintext''\<rparr>"
  let ?content = "(CHR ''#'' # '' Generation: '' @ str_int (generation b)) @ [newline] @
              (CHR ''#'' # '' Alive cells: '' @ str_int (sum_list (map sum_list g))) @ [newline] @
              ''#'' @ [newline] @
              concat (map (\<lambda>row. map cell_char row @ [newline]) g)"
  have n1: "newline \<notin> set ('' Generation: '' @ str_int (generation b))"
    using str_int_no_newline by (simp add: newline_def)
  have n2: "newline \<notin> set ('' Alive cells: '' @ str_int (sum_list (map sum_list g)))"
    using str_int_no_newline by (simp add: newline_def)
  have c: "cells (plaintext_lines 0 (split_on newline ?content) ?p0) = grid_cells 3 g"
    using parse_saved_lines [OF n1 n2, of g ?p0] by simp
  have shift: "set (grid_cells 3 g) = (\<lambda>(row, col). (row + 3, col)) ` set (live_cells b)"
    unfolding grid_cells_set live_cells_set [OF assms g]
    by (auto simp: image_iff)
  then have e: "grid_cells 3 g = [] \<longleftrightarrow> live_cells b = []"
    by (metis image_is_empty set_empty)
  show ?thesis
  proof (cases "live_cells b = []")
    case True
    with e c show ?thesis
      by (simp add: reparsed_rows_moved_def save_pattern_default [OF g] parse_plaintext_def
          Let_def)
  next
    case False
    with e c have "parse_plaintext ?content filename =
                   Inr (plaintext_lines 0 (split_on newline ?content) ?p0)"
      by (simp add: parse_plaintext_def Let_def)
    with False c shift show ?thesis
      unfolding reparsed_rows_moved_def save_pattern_default [OF g]
      by simp
  qed
qed

text \<open>
  A board without a live cell is written and then refused by the parser, which raises
  \<open>PatternParseError\<close> when it has found no cell.
\<close>

lemma save_then_parse_empty:
  "save_pattern (snd (Board_init 2 1 []) ! 0) None None =
     Inr ''# Generation: 0\<newline># Alive cells: 0\<newline>#\<newline>..\<newline>''"
  "parse_plaintext ''# Generation: 0\<newline># Alive cells: 0\<newline>#\<newline>..\<newline>'' ''empty.txt'' =
     Inl PatternParseError"
  by code_simp+

text \<open>
  C3, on a concrete board: saving a grid and parsing the written text through the
  plaintext path should give back the live cells of the grid. The 3 by 3 board whose one
  live cell is \<open>(1, 1)\<close> is written with three comment lines before its rows, and
  \<open>_parse_plaintext\<close>, whose row number is the number of the line in the file, comment
  lines included, gives the cell \<open>(4, 1)\<close>. Saved with a name, as the menu of the program
  does, the file has one more comment line and the cell comes back as \<open>(5, 1)\<close>.
\<close>

theorem save_then_parse_moves_rows:
  "live_cells (lonely ! 0) = [(1, 1)] \<and>
   save_pattern (lonely ! 0) None None =
     Inr ''# Generation: 0\<newline># Alive cells: 1\<newline>#\<newline>...\<newline>.O.\<newline>...\<newline>'' \<and>
   parse_plaintext ''# Generation: 0\<newline># Alive cells: 1\<newline>#\<newline>...\<newline>.O.\<newline>...\<newline>''
     ''lonely.txt'' =
     Inr \<lparr>pattern_name = ''lonely.txt'', cells = [(4, 1)],
          pattern_comments = [''Generation: 0'', ''Alive cells: 1'', []],
          pattern_format = ''plaintext''\<rparr> \<and>
   save_pattern (lonely ! 0) (Some ''lonely'') None =
     Inr ''#N lonely\<newline># Generation: 0\<newline># Alive cells: 1\<newline>#\<newline>...\<newline>.O.\<newline>...\<newline>'' \<and>
   parse_plaintext
     ''#N lonely\<newline># Generation: 0\<newline># Alive cells: 1\<newline>#\<newline>...\<newline>.O.\<newline>...\<newline>''
     ''lonely.txt'' =
     Inr \<lparr>pattern_name = ''lonely'', cells = [(5, 1)],
          pattern_comments = [''Generation: 0'', ''Alive cells: 1'', []],
          pattern_format = ''plaintext''\<rparr>"
  by code_simp

section \<open>Detecting oscillators\<close>

lemma length_sums3: "length (sums3 z f xs) = length xs"
  by (simp add: sums3_def)

lemma sums3_nth:
  assumes "j < length xs"
  shows "sums3 z f xs ! j =
         f (if j = 0 then z else xs ! (j - 1)) (xs ! j)
           (if Suc j < length xs then xs ! Suc j else z)"
proof -
  have a: "(z # xs) ! j = (if j = 0 then z else xs ! (j - 1))"
    by (simp add: nth_Cons')
  have c: "(tl xs @ [z]) ! j = (if Suc j < length xs then xs ! Suc j else z)"
    using assms by (cases xs) (auto simp: nth_append)
  show ?thesis
    using assms by (simp add: sums3_def a c)
qed

lemma sums3_add3_nth:
  assumes "j < length xs"
  shows "sums3 0 add3 xs ! j = at0 xs (int j - 1) + at0 xs (int j) + at0 xs (int j + 1)"
proof -
  have 1: "(if j = 0 then 0 else xs ! (j - 1)) = at0 xs (int j - 1)"
    using assms by (auto simp: at0_def nat_diff_distrib')
  have 2: "xs ! j = at0 xs (int j)"
    using assms by (simp add: at0_def)
  have 3: "(if Suc j < length xs then xs ! Suc j else 0) = at0 xs (int j + 1)"
    by (auto simp: at0_def nat_add_distrib)
  show ?thesis
    unfolding sums3_nth [OF assms] add3_def 1 3 using 2 by simp
qed

lemma add3_rows_nth:
  "j < length a \<Longrightarrow> j < length b \<Longrightarrow> j < length c \<Longrightarrow>
   add3_rows a b c ! j = a ! j + b ! j + c ! j"
  by (simp add: add3_rows_def)

lemma length_add3_rows:
  "length a = n \<Longrightarrow> length b = n \<Longrightarrow> length c = n \<Longrightarrow> length (add3_rows a b c) = n"
  by (simp add: add3_rows_def)

lemma row_sum_outside: "\<not> (0 \<le> k \<and> k < height b) \<Longrightarrow> row_sum b k j = 0"
  by (auto simp: row_sum_def cell_val_def)

lemma nbr_count_row_sums:
  "nbr_count b (int i) (int j) + cell_val b (int i) (int j) =
   row_sum b (int i - 1) j + row_sum b (int i) j + row_sum b (int i + 1) j"
  by (simp add: nbr_count_def row_sum_def)

lemma wf_board_rows:
  assumes "wf_board b" "grid b = Some g"
  shows "length g = nat (height b)" "\<And>k. k < length g \<Longrightarrow> length (g ! k) = nat (width b)"
    "0 < height b" "0 < width b"
proof -
  from assms have g: "int (length g) = height b" "\<forall>r \<in> set g. int (length r) = width b"
    "0 < height b" "0 < width b"
    by (auto simp: wf_board_def)
  show "length g = nat (height b)" using g(1) by simp
  show "length (g ! k) = nat (width b)" if "k < length g" for k
    using g(2) that by (metis nat_int nth_mem)
  show "0 < height b" "0 < width b" by fact+
qed

lemma at0_cell_val:
  assumes "wf_board b" "grid b = Some g" "k < length g"
  shows "at0 (g ! k) c = cell_val b (int k) c"
proof -
  note r = wf_board_rows [OF assms(1,2)]
  have "int k < height b" using assms(3) r(1) by simp
  moreover have "int (length (g ! k)) = width b" using r(2) [OF assms(3)] r(4) by simp
  ultimately show ?thesis
    using assms(2) by (simp add: at0_def cell_val_def)
qed

lemma sums3_row_sum:
  assumes "wf_board b" "grid b = Some g" "k < length g" "j < nat (width b)"
  shows "map (sums3 0 add3) g ! k ! j = row_sum b (int k) j"
proof -
  note r = wf_board_rows [OF assms(1,2)]
  have "j < length (g ! k)" using assms(3,4) r(2) by simp
  from sums3_add3_nth [OF this] assms(3) show ?thesis
    by (simp add: at0_cell_val [OF assms(1,2,3)] row_sum_def)
qed

lemma block_sums_nth:
  assumes "wf_board b" "grid b = Some g" "i < length g" "j < nat (width b)"
  shows "block_sums (nat (width b)) g ! i ! j =
         nbr_count b (int i) (int j) + cell_val b (int i) (int j)"
proof -
  note r = wf_board_rows [OF assms(1,2)]
  let ?W = "nat (width b)"
  let ?hs = "map (sums3 0 add3) g"
  let ?z = "replicate ?W (0::int)"
  let ?A = "if i = 0 then ?z else ?hs ! (i - 1)"
  let ?C = "if Suc i < length ?hs then ?hs ! Suc i else ?z"
  have lh: "length (?hs ! k) = ?W" if "k < length g" for k
    using that r(2) by (simp add: length_sums3)
  have hi: "i < length ?hs" using assms(3) by simp
  have e: "block_sums ?W g ! i = add3_rows ?A (?hs ! i) ?C"
    unfolding block_sums_def by (rule sums3_nth [OF hi])
  have lA: "length ?A = ?W" using lh [of "i - 1"] assms(3) by simp
  have lC: "length ?C = ?W" using lh [of "Suc i"] by simp
  have A: "?A ! j = row_sum b (int i - 1) j"
  proof (cases "i = 0")
    case True
    with assms(4) row_sum_outside [of "-1" b j] show ?thesis by simp
  next
    case False
    then have "i - 1 < length g" "int (i - 1) = int i - 1" using assms(3) by simp_all
    with sums3_row_sum [OF assms(1,2) _ assms(4), of "i - 1"] False show ?thesis by simp
  qed
  have B: "?hs ! i ! j = row_sum b (int i) j"
    by (rule sums3_row_sum [OF assms])
  have C: "?C ! j = row_sum b (int i + 1) j"
  proof (cases "Suc i < length g")
    case True
    with sums3_row_sum [OF assms(1,2) True assms(4)] show ?thesis
      by (simp add: add.commute)
  next
    case False
    then have "\<not> (0 \<le> int i + 1 \<and> int i + 1 < height b)" using r(1) by simp
    from row_sum_outside [OF this] False assms(4) show ?thesis by simp
  qed
  have "add3_rows ?A (?hs ! i) ?C ! j = ?A ! j + ?hs ! i ! j + ?C ! j"
    by (rule add3_rows_nth) (use lA lC lh [OF assms(3)] assms(4) in simp_all)
  with e A B C show ?thesis
    by (simp add: nbr_count_row_sums)
qed

lemma length_block_sums:
  assumes "wf_board b" "grid b = Some g"
  shows "length (block_sums (nat (width b)) g) = length g"
    and "\<And>i. i < length g \<Longrightarrow> length (block_sums (nat (width b)) g ! i) = nat (width b)"
proof -
  note r = wf_board_rows [OF assms]
  let ?W = "nat (width b)"
  let ?hs = "map (sums3 0 add3) g"
  show "length (block_sums ?W g) = length g"
    by (simp add: block_sums_def length_sums3)
  fix i
  assume i: "i < length g"
  have lh: "length (?hs ! k) = ?W" if "k < length g" for k
    using that r(2) by (simp add: length_sums3)
  have hi: "i < length ?hs" using i by simp
  have e: "block_sums ?W g ! i =
           add3_rows (if i = 0 then replicate ?W 0 else ?hs ! (i - 1)) (?hs ! i)
             (if Suc i < length ?hs then ?hs ! Suc i else replicate ?W 0)"
    unfolding block_sums_def by (rule sums3_nth [OF hi])
  show "length (block_sums ?W g ! i) = ?W"
    unfolding e
    by (rule length_add3_rows) (use lh [of "i - 1"] lh [of i] lh [of "Suc i"] i in auto)
qed

lemma next_grid_eq:
  assumes "wf_board b" "grid b = Some g"
  shows "next_grid survive birth (nat (width b)) g =
         map (\<lambda>r. map (\<lambda>c. next_cells survive birth b r c) [0..<nat (width b)])
           [0..<nat (height b)]"
proof (rule nth_equalityI)
  note r = wf_board_rows [OF assms]
  note lb = length_block_sums [OF assms]
  show l: "length (next_grid survive birth (nat (width b)) g) =
        length (map (\<lambda>r. map (\<lambda>c. next_cells survive birth b r c) [0..<nat (width b)])
                 [0..<nat (height b)])"
    using r(1) lb(1) by (simp add: next_grid_def)
  fix i
  assume "i < length (next_grid survive birth (nat (width b)) g)"
  with l have i: "i < length g" using r(1) by simp
  have ri: "next_grid survive birth (nat (width b)) g ! i =
            map (\<lambda>(v, n). rule_next survive birth v (n - v))
              (zip (g ! i) (block_sums (nat (width b)) g ! i))"
    using i lb(1) by (simp add: next_grid_def)
  have "next_grid survive birth (nat (width b)) g ! i =
        map (\<lambda>c. next_cells survive birth b i c) [0..<nat (width b)]"
  proof (rule nth_equalityI)
    show l2: "length (next_grid survive birth (nat (width b)) g ! i) =
          length (map (\<lambda>c. next_cells survive birth b i c) [0..<nat (width b)])"
      unfolding ri using r(2) [OF i] lb(2) [OF i] by simp
    fix j
    assume "j < length (next_grid survive birth (nat (width b)) g ! i)"
    with l2 have j: "j < nat (width b)" by simp
    have "int j < int (length (g ! i))" using j r(2) [OF i] by linarith
    then have "at0 (g ! i) (int j) = g ! i ! j" by (simp add: at0_def)
    then have v: "g ! i ! j = cell_val b (int i) (int j)"
      using at0_cell_val [OF assms i, of "int j"] by simp
    show "next_grid survive birth (nat (width b)) g ! i ! j =
          map (\<lambda>c. next_cells survive birth b i c) [0..<nat (width b)] ! j"
      unfolding ri using j r(2) [OF i] lb(2) [OF i] block_sums_nth [OF assms i j] v
      by (simp add: next_cells_def)
  qed
  with i r(1) show "next_grid survive birth (nat (width b)) g ! i =
        map (\<lambda>r. map (\<lambda>c. next_cells survive birth b r c) [0..<nat (width b)])
          [0..<nat (height b)] ! i"
    by simp
qed

lemma successor_eq:
  assumes "wf_board b"
  shows "next_board survive birth b = successor survive birth b"
proof -
  from assms obtain g where g: "grid b = Some g"
    by (cases "grid b") (auto simp: wf_board_def)
  show ?thesis
    by (simp add: next_board_def successor_def g next_grid_eq [OF assms g])
qed

lemma stable_loop_boards:
  assumes rc: "\<And>b s. b < length s \<Longrightarrow> wf_board (s ! b) \<Longrightarrow>
                 rule_class self b s = (Inr (length s), s @ [successor survive birth (s ! b)])"
    and "board self < length s" and "wf_board (s ! board self)"
  shows "stable_loop gens check_period previous_states self s =
         (case stable_boards survive birth gens check_period previous_states (s ! board self) of
            (r, bs) \<Rightarrow>
              (map_sum id (\<lambda>label. (last_ref (board self) (length s) (length bs), label)) r,
               self\<lparr>board := last_ref (board self) (length s) (length bs)\<rparr>,
               s @ bs))"
  using assms
proof (induction gens arbitrary: previous_states self s)
  case Nil
  show ?case by (simp add: last_ref_def)
next
  case (Cons gen gens)
  let ?b = "s ! board self"
  let ?b' = "successor survive birth ?b"
  let ?self1 = "self\<lparr>board := length s\<rparr>" and ?s1 = "s @ [?b']"
  from Cons.prems(3) obtain pg where pg: "grid ?b = Some pg"
    by (cases "grid ?b") (auto simp: wf_board_def)
  have st: "step self s = (Inr (length s), ?self1, ?s1)"
    using Cons.prems(1) [OF Cons.prems(2,3)] by (simp add: step_def)
  have w': "wf_board ?b'"
    using wf_next_board [OF Cons.prems(3), of survive birth] successor_eq [OF Cons.prems(3)]
    by simp
  then obtain g where g: "grid ?b' = Some g"
    by (cases "grid ?b'") (auto simp: wf_board_def)
  from count_alive_wf [OF w'] obtain a where a: "count_alive ?b' = Inr a" by blast
  have n1: "?s1 ! board ?self1 = ?b'" by simp
  have p1: "board ?self1 < length ?s1" "wf_board (?s1 ! board ?self1)"
    using w' by simp_all
  have rc1: "\<And>b s. b < length s \<Longrightarrow> wf_board (s ! b) \<Longrightarrow>
               rule_class ?self1 b s = (Inr (length s), s @ [successor survive birth (s ! b)])"
    using Cons.prems(1) by simp
  note ih = Cons.IH [of ?self1 ?s1, OF rc1 p1, unfolded n1]
  have lr: "last_ref (length s) (length ?s1) n = last_ref (board self) (length s) (Suc n)" for n
    by (simp add: last_ref_def)
  show ?case
    by (simp add: pg st n1 a g ih lr last_ref_def split: prod.splits option.splits)
qed

lemma late_blinker_boards:
  "period_two_reported_as_four
     (stable_boards {2, 3} {3} (py_range 103) 1 [] (late_blinker ! 0))"
  by code_simp

lemma py_range_split:
  assumes "0 \<le> m" "m \<le> n"
  shows "py_range n = py_range m @ map int [nat m..<nat n]"
proof -
  have e: "nat m + (nat n - nat m) = nat n" using assms by simp
  have "[0..<nat m + (nat n - nat m)] = [0..<nat m] @ [nat m..<nat m + (nat n - nat m)]"
    by (rule upt_add_eq_append) simp
  then have "[0..<nat n] = [0..<nat m] @ [nat m..<nat n]"
    unfolding e .
  then show ?thesis by (simp add: py_range_def)
qed

lemma stable_boards_prefix:
  "fst (stable_boards survive birth xs check_period previous_states b)
     \<noteq> Inr ''max_generations_reached'' \<Longrightarrow>
   stable_boards survive birth (xs @ ys) check_period previous_states b =
   stable_boards survive birth xs check_period previous_states b"
proof (induction xs arbitrary: previous_states b)
  case Nil
  then show ?case by simp
next
  case (Cons gen gens)
  then show ?case
    by (auto split: sum.splits option.splits prod.splits if_splits)
qed

lemma find_state_position:
  "find_state g k states = Some i \<Longrightarrow> k \<le> i \<and> i - k < length states \<and> states ! (i - k) = g"
proof (induction states arbitrary: k)
  case Nil
  then show ?case by simp
next
  case (Cons state states)
  show ?case
  proof (cases "g = state")
    case True
    with Cons.prems show ?thesis by simp
  next
    case False
    with Cons.prems have "find_state g (Suc k) states = Some i" by simp
    from Cons.IH [OF this] have i: "Suc k \<le> i" "i - Suc k < length states"
      "states ! (i - Suc k) = g" by simp_all
    from i(1) have "i - k = Suc (i - Suc k)" by simp
    with i show ?thesis by simp
  qed
qed

text \<open>
  A match at position \<open>i\<close> of the slice \<open>previous_states[-100:]\<close> is the snapshot with
  index \<open>len - 100 + i\<close> of \<open>previous_states\<close> once more than 100 snapshots are recorded:
  the loop's \<open>len - i\<close> then exceeds the distance \<open>100 - i\<close> to that snapshot by
  \<open>len - 100\<close>.
\<close>

lemma matching_snapshot_index:
  assumes "find_state g 0 (last_100 previous_states) = Some i"
  shows "length previous_states - 100 + i < length previous_states \<and>
         previous_states ! (length previous_states - 100 + i) = g"
  using find_state_position [OF assms] by (auto simp: last_100_def)

text \<open>
  C2, on a concrete board. With the default arguments the standard rule takes the 8 by 8
  board \<open>late_blinker\<close> through 103 generations: the run ends at generation 103 with
  102 snapshots recorded, and the grid then equals the grid of generation 101 (the
  snapshot recorded with index 100) and differs from that of generation 102, so the
  period, the number of snapshots minus the index of the matching one, is 2. The run
  classifies it as \<open>oscillator_period_4\<close>: the position 98 of the match inside the
  slice of the last 100 snapshots is subtracted from the number 102 of all snapshots.
\<close>

theorem run_until_stable_late_blinker:
  "fst late_blinker_run = Inr (103, ''oscillator_period_4'') \<and>
   generation (snd (snd late_blinker_run) ! 103) = 103 \<and>
   grid (snd (snd late_blinker_run) ! 103) = grid (snd (snd late_blinker_run) ! 101) \<and>
   grid (snd (snd late_blinker_run) ! 103) \<noteq> grid (snd (snd late_blinker_run) ! 102)"
proof -
  let ?sim = "standard_simulator 0"
  have l: "length late_blinker = 1" by (simp add: late_blinker_def)
  have b0: "board ?sim < length late_blinker"
    by (simp add: l standard_simulator_def)
  have "wf_board (late_blinker ! 0)" by code_simp
  then have w: "wf_board (late_blinker ! board ?sim)"
    by (simp add: standard_simulator_def)
  have rc: "\<And>b s. b < length s \<Longrightarrow> wf_board (s ! b) \<Longrightarrow>
              rule_class ?sim b s = (Inr (length s), s @ [successor {2, 3} {3} (s ! b)])"
    using StandardRules_evolve_wf successor_eq by (simp add: standard_simulator_def)
  obtain r bs where o:
    "stable_boards {2, 3} {3} (py_range 103) 1 [] (late_blinker ! 0) = (r, bs)"
    by (cases "stable_boards {2, 3} {3} (py_range 103) 1 [] (late_blinker ! 0)")
  from late_blinker_boards have v: "r = Inr ''oscillator_period_4''" "length bs = 103"
    "generation (bs ! 102) = 103" "grid (bs ! 102) = grid (bs ! 100)"
    "grid (bs ! 102) \<noteq> grid (bs ! 101)"
    unfolding o period_two_reported_as_four_def prod.case by blast+
  define rest where "rest = map int [nat 103..<nat 10000]"
  have p: "py_range 10000 = py_range 103 @ rest"
    unfolding rest_def by (rule py_range_split) simp_all
  have "fst (stable_boards {2, 3} {3} (py_range 103) 1 [] (late_blinker ! 0))
          \<noteq> Inr ''max_generations_reached''"
    unfolding o v(1) by simp
  from stable_boards_prefix [OF this, of rest]
  have full: "stable_boards {2, 3} {3} (py_range 10000) 1 [] (late_blinker ! 0) = (r, bs)"
    unfolding p o .
  have mg: "py_range (case None of None \<Rightarrow> max_generations ?sim | Some m \<Rightarrow> m) = py_range 10000"
    by (simp add: standard_simulator_def)
  have b00: "late_blinker ! board ?sim = late_blinker ! 0"
    by (simp add: standard_simulator_def)
  have lr: "last_ref (board ?sim) (length late_blinker) (length bs) = 103"
    by (simp add: last_ref_def v(2) l)
  have run: "late_blinker_run =
        (Inr (103, ''oscillator_period_4''), ?sim\<lparr>board := 103\<rparr>, late_blinker @ bs)"
  proof -
    have "stable_loop (py_range 10000) 1 [] ?sim late_blinker =
          (case stable_boards {2, 3} {3} (py_range 10000) 1 [] (late_blinker ! board ?sim) of
            (r, bs) \<Rightarrow>
              (map_sum id (\<lambda>label. (last_ref (board ?sim) (length late_blinker) (length bs),
                                       label)) r,
               ?sim\<lparr>board := last_ref (board ?sim) (length late_blinker) (length bs)\<rparr>,
               late_blinker @ bs))"
      by (rule stable_loop_boards [OF rc b0 w])
    then show ?thesis
      unfolding late_blinker_run_def run_until_stable_def mg b00 full prod.case lr v(1)
      by simp
  qed
  have n: "(late_blinker @ bs) ! 103 = bs ! 102" "(late_blinker @ bs) ! 102 = bs ! 101"
    "(late_blinker @ bs) ! 101 = bs ! 100"
    by (simp_all add: nth_append l)
  show ?thesis
    unfolding run fst_conv snd_conv n using v(3,4,5) by simp
qed

end
